theory Spec2Isabelle
  imports Main
begin

section \<open>Errors and characters\<close>

text \<open>
  The exceptions that the modelled part of \<^verbatim>\<open>pydpkg/__init__.py\<close> can raise or
  catch. \<open>ValueError\<close> and \<open>IndexError\<close> are the built-in exceptions of \<^verbatim>\<open>int()\<close>,
  \<^verbatim>\<open>str.index\<close> and of indexing; \<open>KeyError\<close> is what \<^verbatim>\<open>Message.replace_header\<close> raises
  for a name the message does not have; \<open>BdbQuit\<close> is what a debugger session ended
  by \<^verbatim>\<open>quit\<close> (or by end of input) raises in the frame that called
  \<^verbatim>\<open>pdb.set_trace()\<close>.
\<close>

datatype error =
    DpkgVersionError
  | DpkgMissingRequiredHeaderError
  | ValueError
  | IndexError
  | KeyError
  | BdbQuit

text \<open>
  A string is a list of characters, and a character is a code point from U+0000 to
  U+00FF (the 8-bit \<open>char\<close>, read as Latin-1). \<open>ord\<close> is \<^verbatim>\<open>ord()\<close>; \<open>isdigit\<close>, \<open>isalpha\<close>
  and \<open>lower\<close> are \<^verbatim>\<open>str.isdigit\<close>, \<^verbatim>\<open>str.isalpha\<close> and \<^verbatim>\<open>str.lower\<close> of Python 3 on these
  code points: the superscripts U+00B2, U+00B3 and U+00B9 are digits for
  \<^verbatim>\<open>str.isdigit\<close>, and the letters of Latin-1 (U+00AA, U+00B5, U+00BA, U+00C0 to U+00FF
  without the signs U+00D7 and U+00F7) are alphabetic; \<^verbatim>\<open>str.lower\<close> moves U+00C0 to
  U+00DE (without U+00D7) by 32, as it does A to Z.
\<close>

definition ord :: "char \<Rightarrow> nat" where
  "ord c = of_char c"

definition isdigit :: "char \<Rightarrow> bool" where
  "isdigit c =
     ((48 \<le> ord c \<and> ord c \<le> 57) \<or> ord c = 178 \<or> ord c = 179 \<or> ord c = 185)"

definition isalpha :: "char \<Rightarrow> bool" where
  "isalpha c =
     ((65 \<le> ord c \<and> ord c \<le> 90) \<or> (97 \<le> ord c \<and> ord c \<le> 122) \<or>
      ord c = 170 \<or> ord c = 181 \<or> ord c = 186 \<or>
      (192 \<le> ord c \<and> ord c \<le> 214) \<or> (216 \<le> ord c \<and> ord c \<le> 246) \<or>
      248 \<le> ord c)"

definition lower_char :: "char \<Rightarrow> char" where
  "lower_char c =
     (if (65 \<le> ord c \<and> ord c \<le> 90) \<or> (192 \<le> ord c \<and> ord c \<le> 214) \<or>
         (216 \<le> ord c \<and> ord c \<le> 222)
      then char_of (ord c + 32) else c)"

definition lower :: "string \<Rightarrow> string" where
  "lower s = map lower_char s"

text \<open>
  \<open>ascii\<close>: a character of ASCII, the alphabet that the Debian policy prescribes for
  versions (\<^verbatim>\<open>compare_versions\<close> says so in its comment).
\<close>

definition ascii :: "char \<Rightarrow> bool" where
  "ascii c = (ord c < 128)"

section \<open>The built-ins \<^verbatim>\<open>int()\<close>, \<^verbatim>\<open>str()\<close>, \<^verbatim>\<open>str.index\<close> and \<^verbatim>\<open>str.rindex\<close>\<close>

text \<open>
  \<^verbatim>\<open>int(s)\<close> on a string: surrounding whitespace is stripped, one sign is allowed, and
  what is left must be decimal digits, where single underscores may stand between two
  digits. Anything else raises \<open>ValueError\<close>. The whitespace that \<^verbatim>\<open>int()\<close> strips is
  U+0009 to U+000D, the space, U+0085 and U+00A0; its digits are \<^verbatim>\<open>0\<close> to \<^verbatim>\<open>9\<close> only,
  so it rejects the superscripts that \<^verbatim>\<open>str.isdigit\<close> accepts.
\<close>

definition decimal :: "char \<Rightarrow> bool" where
  "decimal c = (48 \<le> ord c \<and> ord c \<le> 57)"

definition int_space :: "char \<Rightarrow> bool" where
  "int_space c = ((9 \<le> ord c \<and> ord c \<le> 13) \<or> ord c = 32 \<or> ord c = 133 \<or> ord c = 160)"

definition digit_value :: "char \<Rightarrow> nat" where
  "digit_value c = ord c - 48"

definition digits_value :: "string \<Rightarrow> nat" where
  "digits_value ds = foldl (\<lambda>acc c. 10 * acc + digit_value c) 0 ds"

fun digit_groups :: "string \<Rightarrow> bool" where
  "digit_groups [] = False"
| "digit_groups [c] = decimal c"
| "digit_groups (c # d # r) =
     (decimal c \<and> (if d = CHR ''_'' then digit_groups r else digit_groups (d # r)))"

definition strip :: "string \<Rightarrow> string" where
  "strip s = rev (dropWhile int_space (rev (dropWhile int_space s)))"

definition py_int :: "string \<Rightarrow> error + int" where
  "py_int s =
     (let t = strip s;
          negative = (t \<noteq> [] \<and> hd t = CHR ''-'');
          body = (if t \<noteq> [] \<and> (hd t = CHR ''-'' \<or> hd t = CHR ''+'') then tl t else t)
      in if digit_groups body
         then Inr ((if negative then - 1 else 1) *
                   int (digits_value (filter (\<lambda>c. c \<noteq> CHR ''_'') body)))
         else Inl ValueError)"

text \<open>\<^verbatim>\<open>str(n)\<close> of an integer: its decimal rendering, with a minus sign when negative.\<close>

fun str_nat :: "nat \<Rightarrow> string" where
  "str_nat n =
     (if n < 10 then [char_of (48 + n)]
      else str_nat (n div 10) @ [char_of (48 + n mod 10)])"

definition str_int :: "int \<Rightarrow> string" where
  "str_int i = (if i < 0 then CHR ''-'' # str_nat (nat (- i)) else str_nat (nat i))"

text \<open>
  \<^verbatim>\<open>s.index(c)\<close> is the lowest and \<^verbatim>\<open>s.rindex(c)\<close> the highest position of \<open>c\<close>; both
  raise \<open>ValueError\<close> when \<open>c\<close> does not occur, which is \<open>None\<close> here (every caller
  catches it at once).
\<close>

fun str_index :: "char \<Rightarrow> string \<Rightarrow> nat option" where
  "str_index c [] = None"
| "str_index c (x # xs) = (if x = c then Some 0 else map_option Suc (str_index c xs))"

fun str_rindex :: "char \<Rightarrow> string \<Rightarrow> nat option" where
  "str_rindex c [] = None"
| "str_rindex c (x # xs) =
     (case str_rindex c xs of
        Some i \<Rightarrow> Some (Suc i)
      | None \<Rightarrow> if x = c then Some 0 else None)"

text \<open>
  The loops \<^verbatim>\<open>for i, char in enumerate(s): if P(char): ...\<close> of \<^verbatim>\<open>get_alphas\<close> and
  \<^verbatim>\<open>get_digits\<close> stop at the first position whose character satisfies the test.
\<close>

fun first_index :: "(char \<Rightarrow> bool) \<Rightarrow> string \<Rightarrow> nat option" where
  "first_index P [] = None"
| "first_index P (x # xs) = (if P x then Some 0 else map_option Suc (first_index P xs))"

section \<open>Splitting a version: \<^verbatim>\<open>get_epoch\<close>, \<^verbatim>\<open>get_upstream\<close>, \<^verbatim>\<open>split_full_version\<close>\<close>

definition get_epoch :: "string \<Rightarrow> error + (int \<times> string)" where
  "get_epoch version_str =
     (case str_index CHR '':'' version_str of
        None \<Rightarrow> Inr (0, version_str)
      | Some e_index \<Rightarrow>
          (case py_int (take e_index version_str) of
             Inl _ \<Rightarrow> Inl DpkgVersionError
           | Inr epoch \<Rightarrow> Inr (epoch, drop (e_index + 1) version_str)))"

definition get_upstream :: "string \<Rightarrow> string \<times> string" where
  "get_upstream version_str =
     (case str_rindex CHR ''-'' version_str of
        None \<Rightarrow> (version_str, ''0'')
      | Some d_index \<Rightarrow> (take d_index version_str, drop (d_index + 1) version_str))"

definition split_full_version :: "string \<Rightarrow> error + (int \<times> string \<times> string)" where
  "split_full_version version_str =
     (case get_epoch version_str of
        Inl e \<Rightarrow> Inl e
      | Inr (epoch, full_ver) \<Rightarrow>
          (case get_upstream full_ver of
             (upstream_rev, debian_rev) \<Rightarrow> Inr (epoch, upstream_rev, debian_rev)))"

section \<open>The tokenizer: \<^verbatim>\<open>get_alphas\<close>, \<^verbatim>\<open>get_digits\<close>, \<^verbatim>\<open>listify\<close>\<close>

text \<open>The elements of the list that \<^verbatim>\<open>listify\<close> builds are Python strings and integers.\<close>

datatype token = PyStr string | PyInt int

definition get_alphas :: "string \<Rightarrow> string \<times> string" where
  "get_alphas revision_str =
     (case first_index isdigit revision_str of
        Some i \<Rightarrow>
          if i = 0 then ([], revision_str)
          else (take i revision_str, drop i revision_str)
      | None \<Rightarrow> (revision_str, []))"

definition get_digits :: "string \<Rightarrow> error + (int \<times> string)" where
  "get_digits revision_str =
     (if revision_str = [] then Inr (0, [])
      else
        (case first_index (\<lambda>c. \<not> isdigit c) revision_str of
           Some i \<Rightarrow>
             if i = 0 then Inr (0, revision_str)
             else
               (case py_int (take i revision_str) of
                  Inl e \<Rightarrow> Inl e
                | Inr n \<Rightarrow> Inr (n, drop i revision_str))
         | None \<Rightarrow>
             (case py_int revision_str of
                Inl e \<Rightarrow> Inl e
              | Inr n \<Rightarrow> Inr (n, []))))"

text \<open>
  Both scanning loops cut the string where \<open>takeWhile\<close> and \<open>dropWhile\<close> do.
  \<^verbatim>\<open>int()\<close> accepts a run of decimal digits, so \<^verbatim>\<open>get_digits\<close> returns on a string whose
  leading run of \<^verbatim>\<open>str.isdigit\<close> characters is decimal; what is left over is the same
  whenever it returns.
\<close>

lemma first_index_Some:
  "first_index P s = Some i \<Longrightarrow>
     take i s = takeWhile (\<lambda>c. \<not> P c) s \<and> drop i s = dropWhile (\<lambda>c. \<not> P c) s \<and>
     dropWhile (\<lambda>c. \<not> P c) s \<noteq> [] \<and> (i = 0 \<longleftrightarrow> takeWhile (\<lambda>c. \<not> P c) s = [])"
  by (induction s arbitrary: i) (auto split: if_splits)

lemma first_index_None:
  "first_index P s = None \<Longrightarrow>
     takeWhile (\<lambda>c. \<not> P c) s = s \<and> dropWhile (\<lambda>c. \<not> P c) s = []"
  by (induction s) (simp_all split: if_splits)

lemma get_alphas_eq:
  "get_alphas s = (takeWhile (\<lambda>c. \<not> isdigit c) s, dropWhile (\<lambda>c. \<not> isdigit c) s)"
proof (cases "first_index isdigit s")
  case None
  then show ?thesis using first_index_None [of isdigit s]
    by (simp add: get_alphas_def del: takeWhile_eq_all_conv dropWhile_eq_Nil_conv)
next
  case (Some i)
  then show ?thesis using first_index_Some [of isdigit s i]
    by (auto simp: get_alphas_def)
qed

lemma decimal_isdigit: "decimal c \<Longrightarrow> isdigit c"
  by (simp add: decimal_def isdigit_def)

lemma ascii_isdigit: "ascii c \<Longrightarrow> isdigit c \<longleftrightarrow> decimal c"
  by (auto simp: decimal_def isdigit_def ascii_def)

lemma decimal_not_space: "decimal c \<Longrightarrow> \<not> int_space c"
  by (auto simp: decimal_def int_space_def)

lemma decimal_not_sign:
  "decimal c \<Longrightarrow> c \<noteq> CHR ''-'' \<and> c \<noteq> CHR ''+'' \<and> c \<noteq> CHR ''_''"
  by (auto simp: decimal_def ord_def)

lemma dropWhile_hd: "s \<noteq> [] \<Longrightarrow> \<not> P (hd s) \<Longrightarrow> dropWhile P s = s"
  by (cases s) simp_all

lemma strip_digits:
  assumes "ds \<noteq> []" "list_all decimal ds"
  shows "strip ds = ds"
proof -
  have "decimal (hd ds)" using assms by (cases ds) auto
  then have 1: "dropWhile int_space ds = ds"
    using assms(1) by (simp add: dropWhile_hd decimal_not_space)
  have "decimal (last ds)" using assms by (simp add: list_all_iff)
  then have "\<not> int_space (hd (rev ds))" using assms(1) by (simp add: hd_rev decimal_not_space)
  then have 2: "dropWhile int_space (rev ds) = rev ds"
    using assms(1) by (simp add: dropWhile_hd)
  show ?thesis by (simp add: strip_def 1 2)
qed

lemma digit_groups_digits: "ds \<noteq> [] \<Longrightarrow> list_all decimal ds \<Longrightarrow> digit_groups ds"
  by (induction ds rule: digit_groups.induct) (auto simp: decimal_not_sign)

lemma filter_digits: "list_all decimal ds \<Longrightarrow> filter (\<lambda>c. c \<noteq> CHR ''_'') ds = ds"
  by (induction ds) (auto simp: decimal_not_sign)

lemma py_int_digits:
  assumes "ds \<noteq> []" "list_all decimal ds"
  shows "py_int ds = Inr (int (digits_value ds))"
proof -
  have "decimal (hd ds)" using assms by (cases ds) auto
  then have "hd ds \<noteq> CHR ''-'' \<and> hd ds \<noteq> CHR ''+''" using decimal_not_sign by blast
  then show ?thesis
    using assms by (simp add: py_int_def strip_digits digit_groups_digits filter_digits)
qed

lemma py_int_error: "py_int p = Inl e \<Longrightarrow> e = ValueError"
  by (simp add: py_int_def Let_def split: if_splits)

lemma list_all_takeWhile: "list_all P (takeWhile P xs)"
  by (induction xs) simp_all

lemma get_digits_run:
  "get_digits s =
     (if takeWhile isdigit s = [] then Inr (0, s)
      else
        (case py_int (takeWhile isdigit s) of
           Inl e \<Rightarrow> Inl e
         | Inr n \<Rightarrow> Inr (n, dropWhile isdigit s)))"
proof (cases "s = []")
  case True then show ?thesis by (simp add: get_digits_def)
next
  case False
  show ?thesis
  proof (cases "first_index (\<lambda>c. \<not> isdigit c) s")
    case None
    then have "takeWhile isdigit s = s \<and> dropWhile isdigit s = []"
      using first_index_None [of "\<lambda>c. \<not> isdigit c" s] by simp
    then show ?thesis using False None
      by (simp add: get_digits_def del: takeWhile_eq_all_conv dropWhile_eq_Nil_conv
          split: sum.splits)
  next
    case (Some i)
    then have *: "take i s = takeWhile isdigit s \<and> drop i s = dropWhile isdigit s \<and>
        (i = 0 \<longleftrightarrow> takeWhile isdigit s = [])"
      using first_index_Some [of "\<lambda>c. \<not> isdigit c" s i] by simp
    show ?thesis
    proof (cases "i = 0")
      case True
      then show ?thesis using False Some * by (simp add: get_digits_def)
    next
      case nz: False
      then have "takeWhile isdigit s \<noteq> []" using * by simp
      then show ?thesis using False Some nz * by (simp add: get_digits_def split: sum.splits)
    qed
  qed
qed

lemma get_digits_rest: "get_digits s = Inr (n, r) \<Longrightarrow> r = dropWhile isdigit s"
proof (cases "takeWhile isdigit s = []")
  case True
  assume "get_digits s = Inr (n, r)"
  moreover have "dropWhile isdigit s = s" using True by (metis takeWhile_dropWhile_id append_Nil)
  ultimately show ?thesis using True by (simp add: get_digits_run)
next
  case False
  assume "get_digits s = Inr (n, r)"
  then show ?thesis using False by (simp add: get_digits_run split: sum.splits)
qed

lemma get_digits_error: "get_digits s = Inl e \<Longrightarrow> e = ValueError"
  using py_int_error by (auto simp: get_digits_run split: if_splits sum.splits)

lemma get_digits_eq:
  assumes "list_all decimal (takeWhile isdigit s)"
  shows "get_digits s = Inr (int (digits_value (takeWhile isdigit s)), dropWhile isdigit s)"
proof (cases "takeWhile isdigit s = []")
  case True
  moreover have "dropWhile isdigit s = s" using True by (metis takeWhile_dropWhile_id append_Nil)
  ultimately show ?thesis by (simp add: get_digits_run digits_value_def)
next
  case False
  then show ?thesis using assms py_int_digits [of "takeWhile isdigit s"]
    by (simp add: get_digits_run)
qed

lemma listify_step_shorter:
  assumes "s \<noteq> []"
  shows "length (dropWhile isdigit (dropWhile (\<lambda>c. \<not> isdigit c) s)) < length s"
proof -
  obtain x xs where s: "s = x # xs" using assms by (cases s) auto
  show ?thesis
  proof (cases "isdigit x")
    case True
    then show ?thesis using s
      by (simp add: le_imp_less_Suc length_dropWhile_le)
  next
    case False
    have "length (dropWhile isdigit (dropWhile (\<lambda>c. \<not> isdigit c) xs)) \<le> length xs"
      by (meson length_dropWhile_le le_trans)
    then show ?thesis using s False by simp
  qed
qed

text \<open>
  \<^verbatim>\<open>listify\<close>: the \<^verbatim>\<open>while revision_str:\<close> loop, with \<open>result\<close> as the list built so
  far. An exception of \<^verbatim>\<open>get_digits\<close> would leave the loop.
\<close>

function listify_loop :: "string \<Rightarrow> token list \<Rightarrow> error + token list" where
  "listify_loop revision_str result =
     (if revision_str = [] then Inr result
      else
        (case get_alphas revision_str of
           (rev_1, remains) \<Rightarrow>
             (case get_digits remains of
                Inl e \<Rightarrow> Inl e
              | Inr (rev_2, remains') \<Rightarrow>
                  listify_loop remains' (result @ [PyStr rev_1, PyInt rev_2]))))"
  by pat_completeness auto
termination
  apply (relation "measure (\<lambda>(revision_str, result). length revision_str)")
   apply simp
  apply (auto simp: get_alphas_eq listify_step_shorter dest!: get_digits_rest)
  done

declare listify_loop.simps [simp del]

definition listify :: "string \<Rightarrow> error + token list" where
  "listify revision_str = listify_loop revision_str []"

section \<open>Comparison: \<^verbatim>\<open>dstringcmp\<close>, \<^verbatim>\<open>compare_revision_strings\<close>, \<^verbatim>\<open>compare_versions\<close>\<close>

text \<open>
  The loop of \<^verbatim>\<open>dstringcmp\<close> walks \<open>a\<close> by position \<open>i\<close> and reads \<open>b[i]\<close>; here both
  strings are walked together, so the arguments are \<open>a[i:]\<close> and \<open>b[i:]\<close>. Reading
  \<open>b[i]\<close> past the end of \<open>b\<close> raises \<open>IndexError\<close>, which the \<^verbatim>\<open>except\<close> clause turns
  into a result that depends on the current \<open>char\<close>. When the loop ends, \<open>b[len(a)]\<close> is
  read outside the \<^verbatim>\<open>try\<close>: on an exhausted \<open>b\<close> that \<open>IndexError\<close> would escape. The last
  \<open>else\<close> of the fourth equation is the loop going on when no test fired.
\<close>

fun dstringcmp_loop :: "string \<Rightarrow> string \<Rightarrow> error + int" where
  "dstringcmp_loop [] [] = Inl IndexError"
| "dstringcmp_loop [] (c # b) = (if c = CHR ''~'' then Inr 1 else Inr (- 1))"
| "dstringcmp_loop (char # a) [] = (if char = CHR ''~'' then Inr (- 1) else Inr 1)"
| "dstringcmp_loop (char # a) (c # b) =
     (if char = c then dstringcmp_loop a b
      else if char = CHR ''~'' then Inr (- 1)
      else if c = CHR ''~'' then Inr 1
      else if isalpha char \<and> \<not> isalpha c then Inr (- 1)
      else if \<not> isalpha char \<and> isalpha c then Inr 1
      else if ord char > ord c then Inr 1
      else if ord char < ord c then Inr (- 1)
      else dstringcmp_loop a b)"

definition dstringcmp :: "string \<Rightarrow> string \<Rightarrow> error + int" where
  "dstringcmp a b = (if a = b then Inr 0 else dstringcmp_loop a b)"

text \<open>
  The loop of \<^verbatim>\<open>compare_revision_strings\<close> over \<open>list1\<close>, reading \<open>list2[i]\<close>. An item and
  its partner of different classes raise \<open>DpkgVersionError\<close>; an \<open>IndexError\<close>, from
  \<open>list2[i]\<close> or from inside \<^verbatim>\<open>dstringcmp\<close>, is caught and gives 1; the loop running
  out gives \<open>-1\<close>.
\<close>

fun compare_loop :: "token list \<Rightarrow> token list \<Rightarrow> error + int" where
  "compare_loop [] list2 = Inr (- 1)"
| "compare_loop (item # list1) [] = Inr 1"
| "compare_loop (PyInt m # list1) (PyStr t # list2) = Inl DpkgVersionError"
| "compare_loop (PyStr s # list1) (PyInt n # list2) = Inl DpkgVersionError"
| "compare_loop (PyInt m # list1) (PyInt n # list2) =
     (if m = n then compare_loop list1 list2
      else if m > n then Inr 1
      else if m < n then Inr (- 1)
      else compare_loop list1 list2)"
| "compare_loop (PyStr s # list1) (PyStr t # list2) =
     (if s = t then compare_loop list1 list2
      else
        (case dstringcmp s t of
           Inl IndexError \<Rightarrow> Inr 1
         | Inl e \<Rightarrow> Inl e
         | Inr r \<Rightarrow> Inr r))"

definition compare_revision_strings :: "string \<Rightarrow> string \<Rightarrow> error + int" where
  "compare_revision_strings rev1 rev2 =
     (if rev1 = rev2 then Inr 0
      else
        (case listify rev1 of
           Inl e \<Rightarrow> Inl e
         | Inr list1 \<Rightarrow>
             (case listify rev2 of
                Inl e \<Rightarrow> Inl e
              | Inr list2 \<Rightarrow>
                  if list1 = list2 then Inr 0 else compare_loop list1 list2)))"

text \<open>
  \<^verbatim>\<open>compare_versions\<close>; the conversions \<^verbatim>\<open>str(ver1)\<close> and \<^verbatim>\<open>str(ver2)\<close> leave a string
  as it is.
\<close>

definition compare_versions :: "string \<Rightarrow> string \<Rightarrow> error + int" where
  "compare_versions ver1 ver2 =
     (if ver1 = ver2 then Inr 0
      else
        (case split_full_version ver1 of
           Inl e \<Rightarrow> Inl e
         | Inr (epoch1, upstream1, debian1) \<Rightarrow>
             (case split_full_version ver2 of
                Inl e \<Rightarrow> Inl e
              | Inr (epoch2, upstream2, debian2) \<Rightarrow>
                  if epoch1 < epoch2 then Inr (- 1)
                  else if epoch1 > epoch2 then Inr 1
                  else
                    (case compare_revision_strings upstream1 upstream2 of
                       Inl e \<Rightarrow> Inl e
                     | Inr upstr_res \<Rightarrow>
                         if upstr_res \<noteq> 0 then Inr upstr_res
                         else
                           (case compare_revision_strings debian1 debian2 of
                              Inl e \<Rightarrow> Inl e
                            | Inr debian_res \<Rightarrow>
                                if debian_res \<noteq> 0 then Inr debian_res else Inr 0)))))"

section \<open>The control message: \<^verbatim>\<open>_process_dpkg_file\<close>, \<^verbatim>\<open>headers\<close>, \<^verbatim>\<open>get_header\<close>\<close>

text \<open>
  The archive layers and the parser of the header block belong to the libraries
  \<^verbatim>\<open>arpy\<close>, \<^verbatim>\<open>gzip\<close>, \<^verbatim>\<open>tarfile\<close> and \<^verbatim>\<open>email\<close>. What \<^verbatim>\<open>email.message_from_string\<close>
  hands to the code is a \<^verbatim>\<open>Message\<close>: the list of the (name, value) pairs of the control
  file, in its order, each name as the file writes it. \<^verbatim>\<open>keys()\<close> and \<^verbatim>\<open>items()\<close> return
  the names and the pairs as stored; \<^verbatim>\<open>message[name]\<close> and \<^verbatim>\<open>replace_header\<close> find the
  first header whose name equals \<open>name\<close> once both are lower-cased.
\<close>

type_synonym message = "(string \<times> string) list"

definition message_keys :: "message \<Rightarrow> string list" where
  "message_keys message = map fst message"

definition message_items :: "message \<Rightarrow> (string \<times> string) list" where
  "message_items message = message"

fun message_getitem :: "message \<Rightarrow> string \<Rightarrow> string option" where
  "message_getitem [] name = None"
| "message_getitem ((k, v) # hs) name =
     (if lower k = lower name then Some v else message_getitem hs name)"

fun replace_header :: "message \<Rightarrow> string \<Rightarrow> string \<Rightarrow> error + message" where
  "replace_header [] name val = Inl KeyError"
| "replace_header ((k, v) # hs) name val =
     (if lower k = lower name then Inr ((k, val) # hs)
      else
        (case replace_header hs name val of
           Inl e \<Rightarrow> Inl e
         | Inr hs' \<Rightarrow> Inr ((k, v) # hs')))"

text \<open>\<^verbatim>\<open>_force_encoding\<close> leaves a text string as it is.\<close>

definition force_encoding :: "string \<Rightarrow> string" where
  "force_encoding obj = obj"

definition REQUIRED_HEADERS :: "string list" where
  "REQUIRED_HEADERS = [''package'', ''version'', ''architecture'']"

text \<open>
  The loop over \<^verbatim>\<open>REQUIRED_HEADERS\<close>. For a header that is missing, the code first calls
  \<^verbatim>\<open>pdb.set_trace()\<close>: the interpreter stops in the debugger at the next line and waits
  for the operator. The session is an input of the model: \<open>debugger req\<close> is how the
  session opened for the header \<open>req\<close> ends, with \<^verbatim>\<open>continue\<close>, which resumes the code,
  or with \<^verbatim>\<open>quit\<close> or the end of the input, which raise \<open>BdbQuit\<close>.
\<close>

datatype pdb_command = PdbContinue | PdbQuit

fun check_required_headers ::
  "bool \<Rightarrow> (string \<Rightarrow> pdb_command) \<Rightarrow> message \<Rightarrow> string list \<Rightarrow> error + unit" where
  "check_required_headers ignore_missing debugger message [] = Inr ()"
| "check_required_headers ignore_missing debugger message (req # reqs) =
     (if req \<notin> set (map lower (message_keys message)) then
        (case debugger req of
           PdbQuit \<Rightarrow> Inl BdbQuit
         | PdbContinue \<Rightarrow>
             if ignore_missing
             then check_required_headers ignore_missing debugger message reqs
             else Inl DpkgMissingRequiredHeaderError)
      else check_required_headers ignore_missing debugger message reqs)"

text \<open>
  The loop that replaces every header by its coerced value; \<open>message[header]\<close> is
  \<^verbatim>\<open>None\<close> for a name that is absent, and \<^verbatim>\<open>replace_header\<close> then raises \<open>KeyError\<close>.
\<close>

fun coerce_headers :: "message \<Rightarrow> string list \<Rightarrow> error + message" where
  "coerce_headers message [] = Inr message"
| "coerce_headers message (header # rest) =
     (case message_getitem message header of
        None \<Rightarrow> Inl KeyError
      | Some v \<Rightarrow>
          (case replace_header message header (force_encoding v) of
             Inl e \<Rightarrow> Inl e
           | Inr message' \<Rightarrow> coerce_headers message' rest))"

text \<open>
  \<^verbatim>\<open>_process_dpkg_file\<close> from the parsed message on (the two loops and the
  \<^verbatim>\<open>return message\<close>), for an object made with \<open>ignore_missing\<close>.
\<close>

definition process_control_message ::
  "bool \<Rightarrow> (string \<Rightarrow> pdb_command) \<Rightarrow> message \<Rightarrow> error + message" where
  "process_control_message ignore_missing debugger message =
     (case check_required_headers ignore_missing debugger message REQUIRED_HEADERS of
        Inl e \<Rightarrow> Inl e
      | Inr _ \<Rightarrow> coerce_headers message (message_keys message))"

text \<open>
  The property \<^verbatim>\<open>headers\<close> is \<^verbatim>\<open>dict(self.message.items())\<close>: a later pair with the same
  key replaces an earlier one. \<^verbatim>\<open>get_header\<close> looks the lower-cased name up in it, with
  the empty string as the default.
\<close>

definition headers :: "message \<Rightarrow> (string \<rightharpoonup> string)" where
  "headers message = foldl (\<lambda>d (k, v). d(k \<mapsto> v)) Map.empty (message_items message)"

definition get_header :: "message \<Rightarrow> string \<Rightarrow> string" where
  "get_header message header =
     (case headers message (lower header) of None \<Rightarrow> [] | Some v \<Rightarrow> v)"

section \<open>Notions used to state the properties\<close>

text \<open>
  \<open>same_class item other\<close> is the test \<^verbatim>\<open>isinstance(item, other.__class__)\<close> of
  \<^verbatim>\<open>compare_revision_strings\<close> on the two classes a token can have. \<open>alternating\<close> is
  the shape that the docstring of \<^verbatim>\<open>listify\<close> promises: "str, int, str, int..." and of
  even length.
\<close>

definition same_class :: "token \<Rightarrow> token \<Rightarrow> bool" where
  "same_class item other =
     (case (item, other) of
        (PyStr _, PyStr _) \<Rightarrow> True
      | (PyInt _, PyInt _) \<Rightarrow> True
      | _ \<Rightarrow> False)"

fun alternating :: "token list \<Rightarrow> bool" where
  "alternating [] = True"
| "alternating (PyStr s # PyInt n # ts) = alternating ts"
| "alternating ts = False"

text \<open>
  The claim about \<^verbatim>\<open>get_epoch\<close> speaks of a prefix that is "a valid non-negative
  integer": a non-empty run of decimal digits.
\<close>

definition valid_nonneg_integer :: "string \<Rightarrow> bool" where
  "valid_nonneg_integer p = (p \<noteq> [] \<and> list_all decimal p)"

text \<open>
  The claim about the tokenizer speaks of "concatenating in order the string tokens and
  the decimal renderings of the integer tokens": \<open>reconstruct\<close>, with \<^verbatim>\<open>str()\<close> for
  the rendering. Its alphabet is \<open>revision_char\<close>: the ASCII letters, the digits \<^verbatim>\<open>0\<close> to
  \<^verbatim>\<open>9\<close> and the four signs.
\<close>

fun render_token :: "token \<Rightarrow> string" where
  "render_token (PyStr s) = s"
| "render_token (PyInt n) = str_int n"

definition reconstruct :: "token list \<Rightarrow> string" where
  "reconstruct ts = concat (map render_token ts)"

definition revision_char :: "char \<Rightarrow> bool" where
  "revision_char c =
     ((65 \<le> ord c \<and> ord c \<le> 90) \<or> (97 \<le> ord c \<and> ord c \<le> 122) \<or> decimal c \<or>
      c \<in> set ''.-~+'')"

text \<open>
  \<open>zero_padded s\<close>: somewhere in \<open>s\<close> a run of digits begins with \<^verbatim>\<open>0\<close> and goes on
  with another digit. The flag of \<open>padded_run\<close> says whether the character before the
  current one was a digit.
\<close>

fun padded_run :: "bool \<Rightarrow> string \<Rightarrow> bool" where
  "padded_run after_digit [] = False"
| "padded_run after_digit [c] = False"
| "padded_run after_digit (c # d # r) =
     ((\<not> after_digit \<and> c = CHR ''0'' \<and> isdigit d) \<or> padded_run (isdigit c) (d # r))"

definition zero_padded :: "string \<Rightarrow> bool" where
  "zero_padded s = padded_run False s"

section \<open>Properties of \<^verbatim>\<open>dstringcmp\<close>\<close>

lemma ord_inject: "ord c = ord d \<longleftrightarrow> c = d"
  by (simp add: ord_def)

lemma dstringcmp_loop_common_prefix:
  "dstringcmp_loop (p @ a) (p @ b) = dstringcmp_loop a b"
  by (induction p) simp_all

lemma dstringcmp_loop_differ:
  "x \<noteq> y \<Longrightarrow> dstringcmp_loop (x # a) (y # b) =
     Inr (if x = CHR ''~'' then - 1 else if y = CHR ''~'' then 1
          else if isalpha x \<and> \<not> isalpha y then - 1
          else if \<not> isalpha x \<and> isalpha y then 1
          else if ord x < ord y then - 1 else 1)"
  using ord_inject [of x y] by (auto simp: not_less le_less)

text \<open>
  On different strings the loop always returns, with 1 or \<open>-1\<close>: the read of
  \<open>b[len(a)]\<close> after the loop never fails, and the loop never runs past a differing
  position.
\<close>

lemma dstringcmp_loop_total:
  "a \<noteq> b \<Longrightarrow> \<exists>r. dstringcmp_loop a b = Inr r \<and> (r = 1 \<or> r = - 1)"
  by (induction a b rule: dstringcmp_loop.induct) (auto simp: ord_inject)

lemma dstringcmp_loop_antisym:
  "a \<noteq> b \<Longrightarrow> dstringcmp_loop a b = Inr r \<Longrightarrow> dstringcmp_loop b a = Inr (- r)"
  by (induction a b rule: dstringcmp_loop.induct) (auto simp: ord_inject split: if_splits)

text \<open>
  Claim C6. \<^verbatim>\<open>dstringcmp(a, b)\<close> is 0 on equal strings. When the strings first differ at
  a position, after a common prefix \<open>p\<close>, in the characters \<open>x\<close> of \<open>a\<close> and \<open>y\<close> of \<open>b\<close>,
  the side with the tilde is the lesser; otherwise a letter (for \<^verbatim>\<open>str.isalpha\<close>) is less
  than a non-letter;
  otherwise the lower character code is the lesser. When one string is a proper prefix
  of the other, the shorter is the lesser unless the next character \<open>c\<close> of the longer
  is a tilde, and then the longer is the lesser.
\<close>

theorem dstringcmp_spec:
  "dstringcmp a a = Inr 0 \<and>
   (x \<noteq> y \<longrightarrow>
      dstringcmp (p @ x # a') (p @ y # b') =
        Inr (if x = CHR ''~'' then - 1 else if y = CHR ''~'' then 1
             else if isalpha x \<and> \<not> isalpha y then - 1
             else if \<not> isalpha x \<and> isalpha y then 1
             else if ord x < ord y then - 1 else 1)) \<and>
   dstringcmp a (a @ c # r) = Inr (if c = CHR ''~'' then 1 else - 1) \<and>
   dstringcmp (a @ c # r) a = Inr (if c = CHR ''~'' then - 1 else 1)"
proof -
  have 1: "dstringcmp a a = Inr 0" by (simp add: dstringcmp_def)
  have 2: "dstringcmp (p @ x # a') (p @ y # b') =
        Inr (if x = CHR ''~'' then - 1 else if y = CHR ''~'' then 1
             else if isalpha x \<and> \<not> isalpha y then - 1
             else if \<not> isalpha x \<and> isalpha y then 1
             else if ord x < ord y then - 1 else 1)" if "x \<noteq> y"
    using that dstringcmp_loop_differ [OF that, of a' b']
    by (simp add: dstringcmp_def dstringcmp_loop_common_prefix)
  have "dstringcmp_loop (a @ []) (a @ c # r) = dstringcmp_loop [] (c # r)"
    by (rule dstringcmp_loop_common_prefix)
  then have 3: "dstringcmp a (a @ c # r) = Inr (if c = CHR ''~'' then 1 else - 1)"
    by (simp add: dstringcmp_def)
  have "dstringcmp_loop (a @ c # r) (a @ []) = dstringcmp_loop (c # r) []"
    by (rule dstringcmp_loop_common_prefix)
  then have 4: "dstringcmp (a @ c # r) a = Inr (if c = CHR ''~'' then - 1 else 1)"
    by (simp add: dstringcmp_def)
  show ?thesis using 1 2 3 4 by blast
qed

theorem dstringcmp_spec_witness:
  "CHR ''a'' \<noteq> CHR ''+'' \<and> dstringcmp ''1a2'' ''1+'' = Inr (- 1) \<and>
   dstringcmp ''rc'' ''rc'' = Inr 0 \<and> dstringcmp ''rc'' ''rc~1'' = Inr 1 \<and>
   dstringcmp ''rc~1'' ''rc'' = Inr (- 1) \<and>
   CHR 0xE9 \<noteq> CHR ''1'' \<and> dstringcmp [CHR 0xE9] ''1'' = Inr (- 1)"
proof -
  have a: "isalpha CHR ''a''" "\<not> isalpha CHR ''+''" "isalpha (CHR 0xE9)" "\<not> isalpha CHR ''1''"
    by code_simp+
  have b: "CHR ''a'' \<noteq> CHR ''+''" "CHR 0xE9 \<noteq> CHR ''1''" "CHR ''a'' \<noteq> CHR ''~''"
    "CHR ''+'' \<noteq> CHR ''~''" "CHR 0xE9 \<noteq> CHR ''~''" "CHR ''1'' \<noteq> CHR ''~''"
    by simp_all
  show ?thesis
    using a b
      dstringcmp_spec [of "''rc''" "CHR ''a''" "CHR ''+''" "''1''" "''2''" "[]" "CHR ''~''" "''1''"]
      dstringcmp_spec [of "''rc''" "CHR 0xE9" "CHR ''1''" "[]" "[]" "[]" "CHR ''~''" "''1''"]
    by simp
qed

section \<open>Properties of the tokenizer and of the comparison\<close>

text \<open>
  The type test of the loop is what the third and fourth equations of \<open>compare_loop\<close>
  model: a pair of different classes raises at once.
\<close>

lemma compare_loop_class_mismatch:
  "\<not> same_class item other \<Longrightarrow>
     compare_loop (item # list1) (other # list2) = Inl DpkgVersionError"
  by (cases item; cases other) (simp_all add: same_class_def)

lemma alternating_append: "alternating xs \<Longrightarrow> alternating ys \<Longrightarrow> alternating (xs @ ys)"
  by (induction xs rule: alternating.induct) simp_all

text \<open>One round of the loop of \<^verbatim>\<open>listify\<close>, and its exit.\<close>

lemma listify_loop_Nil [simp]: "listify_loop [] result = Inr result"
  by (simp add: listify_loop.simps)

lemma listify_loop_unfold:
  "s \<noteq> [] \<Longrightarrow>
     listify_loop s result =
       (case get_digits (dropWhile (\<lambda>c. \<not> isdigit c) s) of
          Inl e \<Rightarrow> Inl e
        | Inr (n, r') \<Rightarrow>
            listify_loop r' (result @ [PyStr (takeWhile (\<lambda>c. \<not> isdigit c) s), PyInt n]))"
  by (subst listify_loop.simps) (simp add: get_alphas_eq)

text \<open>
  On ASCII text every run of \<^verbatim>\<open>str.isdigit\<close> characters is decimal, so the loop goes
  round without an exception; on any text its only exception is the \<open>ValueError\<close> of
  \<^verbatim>\<open>int()\<close>, and what it returns alternates.
\<close>

lemma ascii_dropWhile: "list_all ascii s \<Longrightarrow> list_all ascii (dropWhile P s)"
  unfolding list_all_iff using set_dropWhileD by fast

lemma ascii_run_decimal: "list_all ascii s \<Longrightarrow> list_all decimal (takeWhile isdigit s)"
  by (induction s) (auto simp: ascii_isdigit)

lemma listify_loop_step:
  assumes "s \<noteq> []" "list_all ascii s"
  shows "listify_loop s result =
       listify_loop (dropWhile isdigit (dropWhile (\<lambda>c. \<not> isdigit c) s))
         (result @ [PyStr (takeWhile (\<lambda>c. \<not> isdigit c) s),
                    PyInt (int (digits_value (takeWhile isdigit (dropWhile (\<lambda>c. \<not> isdigit c) s))))])"
proof -
  have "list_all decimal (takeWhile isdigit (dropWhile (\<lambda>c. \<not> isdigit c) s))"
    using assms(2) by (intro ascii_run_decimal ascii_dropWhile)
  then show ?thesis using assms(1) by (simp add: listify_loop_unfold get_digits_eq)
qed

lemma listify_loop_alternating:
  "alternating result \<Longrightarrow> listify_loop s result = Inr ts \<Longrightarrow> alternating ts"
proof (induction s result rule: listify_loop.induct)
  case (1 s result)
  show ?case
  proof (cases "s = []")
    case True
    then show ?thesis using "1.prems" by simp
  next
    case False
    let ?a = "takeWhile (\<lambda>c. \<not> isdigit c) s"
    let ?r = "dropWhile (\<lambda>c. \<not> isdigit c) s"
    obtain n r' where g: "get_digits ?r = Inr (n, r')"
        and l: "listify_loop r' (result @ [PyStr ?a, PyInt n]) = Inr ts"
      using "1.prems"(2) listify_loop_unfold [OF False, of result]
      by (auto split: sum.splits)
    have "alternating (result @ [PyStr ?a, PyInt n])"
      using "1.prems"(1) by (simp add: alternating_append)
    then show ?thesis
      using "1.IH" [OF False get_alphas_eq [symmetric] g refl] l by blast
  qed
qed

lemma listify_loop_error: "listify_loop s result = Inl e \<Longrightarrow> e = ValueError"
proof (induction s result rule: listify_loop.induct)
  case (1 s result)
  show ?case
  proof (cases "s = []")
    case True
    then show ?thesis using "1.prems" by simp
  next
    case False
    let ?a = "takeWhile (\<lambda>c. \<not> isdigit c) s"
    let ?r = "dropWhile (\<lambda>c. \<not> isdigit c) s"
    show ?thesis
    proof (cases "get_digits ?r")
      case (Inl e')
      then show ?thesis
        using "1.prems" listify_loop_unfold [OF False, of result] get_digits_error by auto
    next
      case (Inr y)
      obtain n r' where y: "y = (n, r')" by (cases y)
      have "listify_loop r' (result @ [PyStr ?a, PyInt n]) = Inl e"
        using "1.prems" listify_loop_unfold [OF False, of result] Inr y by simp
      then show ?thesis
        using "1.IH" [OF False get_alphas_eq [symmetric] Inr [unfolded y] refl] by blast
    qed
  qed
qed

lemma listify_loop_ascii: "list_all ascii s \<Longrightarrow> \<exists>ts. listify_loop s result = Inr ts"
proof (induction s result rule: listify_loop.induct)
  case (1 s result)
  show ?case
  proof (cases "s = []")
    case True
    then show ?thesis by simp
  next
    case False
    let ?a = "takeWhile (\<lambda>c. \<not> isdigit c) s"
    let ?r = "dropWhile (\<lambda>c. \<not> isdigit c) s"
    let ?n = "int (digits_value (takeWhile isdigit ?r))"
    let ?r' = "dropWhile isdigit ?r"
    have g: "get_digits ?r = Inr (?n, ?r')"
      using "1.prems" by (intro get_digits_eq ascii_run_decimal ascii_dropWhile)
    have "list_all ascii ?r'" using "1.prems" by (intro ascii_dropWhile)
    then have "\<exists>ts. listify_loop ?r' (result @ [PyStr ?a, PyInt ?n]) = Inr ts"
      using "1.IH" [OF False get_alphas_eq [symmetric] g refl] by blast
    then show ?thesis using listify_loop_step [OF False "1.prems", of result] by simp
  qed
qed

lemma listify_alternating: "listify s = Inr ts \<Longrightarrow> alternating ts"
  using listify_loop_alternating [of "[]" s ts] by (simp add: listify_def)

lemma listify_error: "listify s = Inl e \<Longrightarrow> e = ValueError"
  using listify_loop_error [of s "[]" e] by (simp add: listify_def)

lemma listify_ascii: "list_all ascii s \<Longrightarrow> \<exists>ts. listify s = Inr ts \<and> alternating ts"
  using listify_loop_ascii [of s "[]"] listify_alternating by (auto simp: listify_def)

lemma alternating_same_class:
  "alternating xs \<Longrightarrow> alternating ys \<Longrightarrow> i < length xs \<Longrightarrow> i < length ys \<Longrightarrow> same_class (xs ! i) (ys ! i)"
proof (induction xs arbitrary: ys i rule: alternating.induct)
  case 1 then show ?case by simp
next
  case (2 s n ts)
  then obtain t m us where ys: "ys = PyStr t # PyInt m # us" "alternating us"
    by (cases ys rule: alternating.cases) auto
  show ?case
  proof (cases i)
    case 0 then show ?thesis using ys by (simp add: same_class_def)
  next
    case (Suc j)
    show ?thesis
    proof (cases j)
      case 0 then show ?thesis using Suc ys by (simp add: same_class_def)
    next
      case (Suc k)
      then show ?thesis using \<open>i = Suc j\<close> ys 2 by simp
    qed
  qed
qed simp_all

lemma compare_loop_alternating:
  "alternating xs \<Longrightarrow> alternating ys \<Longrightarrow> \<exists>r. compare_loop xs ys = Inr r \<and> (r = 1 \<or> r = - 1)"
proof (induction xs arbitrary: ys rule: alternating.induct)
  case 1 then show ?case by simp
next
  case (2 s n ts)
  show ?case
  proof (cases ys rule: alternating.cases)
    case 1 then show ?thesis by simp
  next
    case (2 t m us)
    then have us: "alternating us" using "2.prems" by simp
    show ?thesis
    proof (cases "s = t")
      case True
      then show ?thesis using 2 "2.IH" [OF "2.prems"(1) [simplified] us] by auto
    next
      case False
      then obtain r where "dstringcmp_loop s t = Inr r" "r = 1 \<or> r = - 1"
        using dstringcmp_loop_total by blast
      then show ?thesis using 2 False by (auto simp: dstringcmp_def)
    qed
  qed (use "2.prems" in simp_all)
qed simp_all

lemma compare_loop_antisym:
  "xs \<noteq> ys \<Longrightarrow> compare_loop xs ys = Inr r \<Longrightarrow> compare_loop ys xs = Inr (- r)"
proof (induction xs ys rule: compare_loop.induct)
  case (6 s list1 t list2)
  show ?case
  proof (cases "s = t")
    case True then show ?thesis using 6 by simp
  next
    case False
    then obtain q where q: "dstringcmp_loop s t = Inr q" using dstringcmp_loop_total by blast
    then have "dstringcmp_loop t s = Inr (- q)" using False dstringcmp_loop_antisym by blast
    then show ?thesis using 6(3) q False by (auto simp: dstringcmp_def)
  qed
next
  case (1 list2) then show ?case by (cases list2) auto
qed (auto split: if_splits)

lemma compare_revision_strings_total:
  assumes "list_all ascii rev1" "list_all ascii rev2"
  shows "\<exists>r. compare_revision_strings rev1 rev2 = Inr r \<and> (r = - 1 \<or> r = 0 \<or> r = 1)"
proof -
  obtain l1 l2 where "listify rev1 = Inr l1" "alternating l1" "listify rev2 = Inr l2" "alternating l2"
    using assms listify_ascii by blast
  then show ?thesis using compare_loop_alternating [of l1 l2]
    by (auto simp: compare_revision_strings_def)
qed

lemma compare_revision_strings_error:
  "compare_revision_strings rev1 rev2 = Inl e \<Longrightarrow> e = ValueError"
proof -
  assume a: "compare_revision_strings rev1 rev2 = Inl e"
  show ?thesis
  proof (cases "listify rev1")
    case (Inl e1)
    then show ?thesis using a listify_error [of rev1]
      by (auto simp: compare_revision_strings_def split: if_splits)
  next
    case l1: (Inr l1)
    show ?thesis
    proof (cases "listify rev2")
      case (Inl e2)
      then show ?thesis using a l1 listify_error [of rev2]
        by (auto simp: compare_revision_strings_def split: if_splits)
    next
      case l2: (Inr l2)
      have "\<exists>r. compare_loop l1 l2 = Inr r"
        using compare_loop_alternating [OF listify_alternating [OF l1] listify_alternating [OF l2]]
        by blast
      then show ?thesis using a l1 l2
        by (auto simp: compare_revision_strings_def split: if_splits)
    qed
  qed
qed

lemma compare_revision_strings_swap:
  assumes "compare_revision_strings rev1 rev2 = Inr r"
  shows "compare_revision_strings rev2 rev1 = Inr (- r)"
proof (cases "rev1 = rev2")
  case True
  then show ?thesis using assms by (simp add: compare_revision_strings_def)
next
  case False
  then obtain l1 l2 where l: "listify rev1 = Inr l1" "listify rev2 = Inr l2"
    using assms by (auto simp: compare_revision_strings_def split: sum.splits)
  show ?thesis
  proof (cases "l1 = l2")
    case True
    then show ?thesis using assms l False by (auto simp: compare_revision_strings_def)
  next
    case ne: False
    then have "compare_loop l1 l2 = Inr r"
      using assms l False by (simp add: compare_revision_strings_def)
    then have "compare_loop l2 l1 = Inr (- r)" using ne compare_loop_antisym by blast
    then show ?thesis using False ne l by (auto simp: compare_revision_strings_def)
  qed
qed

lemma compare_versions_swap:
  assumes "compare_versions a b = Inr r"
  shows "compare_versions b a = Inr (- r)"
proof (cases "a = b")
  case True then show ?thesis using assms by (simp add: compare_versions_def)
next
  case False
  from assms False obtain e1 u1 d1 e2 u2 d2 where
    s: "split_full_version a = Inr (e1, u1, d1)" "split_full_version b = Inr (e2, u2, d2)"
    by (auto simp: compare_versions_def split: sum.splits)
  show ?thesis
  proof (cases "e1 = e2")
    case ne: False
    then show ?thesis using assms False s
      by (auto simp: compare_versions_def split: if_splits)
  next
    case True
    then obtain x where x: "compare_revision_strings u1 u2 = Inr x"
      using assms False s by (auto simp: compare_versions_def split: sum.splits)
    have x': "compare_revision_strings u2 u1 = Inr (- x)"
      using x by (rule compare_revision_strings_swap)
    show ?thesis
    proof (cases "x = 0")
      case nz: False
      then show ?thesis using assms False s True x x'
        by (auto simp: compare_versions_def)
    next
      case z: True
      then obtain y where y: "compare_revision_strings d1 d2 = Inr y"
        using assms False s True x by (auto simp: compare_versions_def split: sum.splits)
      have y': "compare_revision_strings d2 d1 = Inr (- y)"
        using y by (rule compare_revision_strings_swap)
      show ?thesis using assms False s True x x' y y' z
        by (auto simp: compare_versions_def split: if_splits)
    qed
  qed
qed

text \<open>
  A list that goes on after the whole of the other one is the greater, whatever its
  next token is: the loop has no test for a tilde there.
\<close>

lemma compare_loop_longer: "compare_loop (list2 @ item # rest) list2 = Inr 1"
proof (induction list2)
  case Nil
  show ?case by simp
next
  case (Cons x xs)
  then show ?case by (cases x) simp_all
qed

text \<open>
  Claim C9, as the code has it. For every pair of revision strings on which
  \<^verbatim>\<open>listify\<close> returns, the tokens at the same position have the same class, so the loop
  of \<^verbatim>\<open>compare_revision_strings\<close> never reaches its \<open>DpkgVersionError\<close>. For every pair of
  revision strings of ASCII characters \<^verbatim>\<open>listify\<close> returns, and the comparison returns
  \<open>-1\<close>, 0 or 1 without raising.
\<close>

theorem tokens_type_matched:
  "(listify rev1 = Inr list1 \<and> listify rev2 = Inr list2 \<longrightarrow>
      (\<forall>i. i < length list1 \<and> i < length list2 \<longrightarrow> same_class (list1 ! i) (list2 ! i)) \<and>
      compare_loop list1 list2 \<noteq> Inl DpkgVersionError) \<and>
   compare_revision_strings rev1 rev2 \<noteq> Inl DpkgVersionError \<and>
   (list_all ascii rev1 \<and> list_all ascii rev2 \<longrightarrow>
      (\<exists>l1 l2 r. listify rev1 = Inr l1 \<and> listify rev2 = Inr l2 \<and>
         compare_revision_strings rev1 rev2 = Inr r \<and> (r = - 1 \<or> r = 0 \<or> r = 1)))"
proof -
  have 1: "(\<forall>i. i < length list1 \<and> i < length list2 \<longrightarrow> same_class (list1 ! i) (list2 ! i)) \<and>
      compare_loop list1 list2 \<noteq> Inl DpkgVersionError"
    if l: "listify rev1 = Inr list1 \<and> listify rev2 = Inr list2"
  proof -
    have a: "alternating list1" "alternating list2"
      using l listify_alternating by blast+
    have "\<forall>i. i < length list1 \<and> i < length list2 \<longrightarrow> same_class (list1 ! i) (list2 ! i)"
      using alternating_same_class [OF a] by blast
    moreover have "compare_loop list1 list2 \<noteq> Inl DpkgVersionError"
      using compare_loop_alternating [OF a] by auto
    ultimately show ?thesis by blast
  qed
  have 2: "compare_revision_strings rev1 rev2 \<noteq> Inl DpkgVersionError"
    using compare_revision_strings_error [of rev1 rev2 DpkgVersionError] by auto
  have 3: "\<exists>l1 l2 r. listify rev1 = Inr l1 \<and> listify rev2 = Inr l2 \<and>
         compare_revision_strings rev1 rev2 = Inr r \<and> (r = - 1 \<or> r = 0 \<or> r = 1)"
    if a: "list_all ascii rev1 \<and> list_all ascii rev2"
  proof -
    obtain l1 l2 where "listify rev1 = Inr l1" "listify rev2 = Inr l2"
      using a listify_ascii by blast
    moreover obtain r where "compare_revision_strings rev1 rev2 = Inr r" "r = - 1 \<or> r = 0 \<or> r = 1"
      using a compare_revision_strings_total by blast
    ultimately show ?thesis by blast
  qed
  show ?thesis using 1 2 3 by blast
qed

theorem tokens_type_matched_witness:
  "list_all ascii ''1.0~rc1'' \<and> list_all ascii ''2+b'' \<and>
   listify ''1.0~rc1'' = Inr [PyStr [], PyInt 1, PyStr ''.'', PyInt 0, PyStr ''~rc'', PyInt 1] \<and>
   listify ''2+b'' = Inr [PyStr [], PyInt 2, PyStr ''+b'', PyInt 0] \<and>
   (2::nat) < length [PyStr [], PyInt 1, PyStr ''.'', PyInt 0, PyStr ''~rc'', PyInt 1] \<and>
   (2::nat) < length [PyStr [], PyInt 2, PyStr ''+b'', PyInt 0] \<and>
   same_class (PyStr ''.'') (PyStr ''+b'') \<and>
   compare_revision_strings ''1.0~rc1'' ''2+b'' = Inr (- 1)"
proof -
  let ?l1 = "[PyStr [], PyInt 1, PyStr ''.'', PyInt 0, PyStr ''~rc'', PyInt 1]"
  let ?l2 = "[PyStr [], PyInt 2, PyStr ''+b'', PyInt 0]"
  have a: "listify ''1.0~rc1'' = Inr ?l1" by code_simp
  have b: "listify ''2+b'' = Inr ?l2" by code_simp
  have c: "list_all ascii ''1.0~rc1''" "list_all ascii ''2+b''" by code_simp+
  note t = tokens_type_matched [of "''1.0~rc1''" ?l1 "''2+b''" ?l2]
  have "2 < length ?l1 \<and> 2 < length ?l2 \<longrightarrow> same_class (?l1 ! 2) (?l2 ! 2)"
    using t a b by blast
  then have s: "same_class (PyStr ''.'') (PyStr ''+b'')" by simp
  obtain r where r: "compare_revision_strings ''1.0~rc1'' ''2+b'' = Inr r"
      "r = - 1 \<or> r = 0 \<or> r = 1"
    using t c by blast
  have "compare_revision_strings ''1.0~rc1'' ''2+b'' = Inr (- 1)" by code_simp
  then show ?thesis using a b c s r by simp
qed

text \<open>
  Claim C9, as stated, fails. The superscript two is a digit for \<^verbatim>\<open>str.isdigit\<close>, so
  \<^verbatim>\<open>get_digits\<close> hands \<^verbatim>\<open>int()\<close> the run made of \<^verbatim>\<open>1\<close> and the superscript, and \<^verbatim>\<open>int()\<close>
  raises \<open>ValueError\<close>, which nothing catches: the comparison of that string with
  \<^verbatim>\<open>"1"\<close> raises.
\<close>

theorem compare_revision_strings_raises:
  "isdigit (CHR 0xB2) \<and>
   get_digits [CHR ''1'', CHR 0xB2] = Inl ValueError \<and>
   listify [CHR ''1'', CHR 0xB2] = Inl ValueError \<and>
   compare_revision_strings [CHR ''1'', CHR 0xB2] ''1'' = Inl ValueError"
  by code_simp

text \<open>
  Claim C5. Whenever \<^verbatim>\<open>compare_versions(a, b)\<close> returns a result \<open>r\<close> (no exception),
  \<^verbatim>\<open>compare_versions(b, a)\<close> returns \<open>-r\<close>; and \<^verbatim>\<open>compare_versions(v, v)\<close> is 0 for every
  string \<open>v\<close>.
\<close>

theorem compare_versions_antisymmetric:
  "(compare_versions a b = Inr r \<longrightarrow> compare_versions b a = Inr (- r)) \<and>
   compare_versions v v = Inr 0"
  using compare_versions_swap [of a b r] by (simp add: compare_versions_def)

theorem compare_versions_antisymmetric_witness:
  "compare_versions ''1:1.0'' ''2.0'' = Inr 1 \<and> compare_versions ''2.0'' ''1:1.0'' = Inr (- 1) \<and>
   compare_versions ''1.0-1'' ''1.0-1'' = Inr 0"
proof -
  have h: "compare_versions ''1:1.0'' ''2.0'' = Inr 1" by code_simp
  show ?thesis
    using h compare_versions_antisymmetric [of "''1:1.0''" "''2.0''" 1 "''1.0-1''"] by simp
qed

text \<open>
  Claim C10. \<^verbatim>\<open>compare_versions(s, s)\<close> returns 0 for every string \<open>s\<close>, without raising:
  the test \<^verbatim>\<open>ver1 == ver2\<close> comes before any parsing, so this also holds for a string
  such as \<^verbatim>\<open>"nope:1"\<close>, on which \<^verbatim>\<open>split_full_version\<close> raises.
\<close>

theorem compare_versions_identical:
  "compare_versions s s = Inr 0"
  by (simp add: compare_versions_def)

theorem compare_versions_identical_witness:
  "split_full_version ''nope:1'' = Inl DpkgVersionError \<and>
   compare_versions ''nope:1'' ''nope:1'' = Inr 0 \<and>
   compare_versions ''nope:1'' ''1'' = Inl DpkgVersionError"
proof -
  have a: "split_full_version ''nope:1'' = Inl DpkgVersionError" by code_simp
  have b: "compare_versions ''nope:1'' ''1'' = Inl DpkgVersionError" by code_simp
  show ?thesis using a b compare_versions_identical [of "''nope:1''"] by simp
qed

text \<open>
  Claim C1. The claim wants a revision that continues the other one with a tilde to rank
  lower, and \<^verbatim>\<open>compare("1.0~rc1", "1.0")\<close> to be \<open>-1\<close>. The code returns 1: the tokens of
  \<^verbatim>\<open>"1.0"\<close> are a proper prefix of those of \<^verbatim>\<open>"1.0~rc1"\<close>, reading \<open>list2[4]\<close> raises
  \<open>IndexError\<close>, and the handler returns 1 without looking at the tilde (the handler of
  \<^verbatim>\<open>dstringcmp\<close> does look at it).
\<close>

theorem tilde_suffix_ranks_higher:
  "listify ''1.0~rc1'' = Inr [PyStr [], PyInt 1, PyStr ''.'', PyInt 0, PyStr ''~rc'', PyInt 1] \<and>
   listify ''1.0'' = Inr [PyStr [], PyInt 1, PyStr ''.'', PyInt 0] \<and>
   compare_revision_strings ''1.0~rc1'' ''1.0'' = Inr 1 \<and>
   compare_versions ''1.0~rc1'' ''1.0'' = Inr 1 \<and>
   compare_versions ''1.0~'' ''1.0'' = Inr 1"
  by code_simp

section \<open>Properties of the splitting of a version\<close>

lemma str_index_None: "c \<notin> set s \<Longrightarrow> str_index c s = None"
  by (induction s) auto

lemma str_index_first: "c \<notin> set p \<Longrightarrow> str_index c (p @ c # r) = Some (length p)"
  by (induction p) auto

lemma str_index_Some: "str_index c s = Some i \<Longrightarrow> \<exists>r. s = take i s @ c # r \<and> c \<notin> set (take i s) \<and> r = drop (i + 1) s"
proof (induction s arbitrary: i)
  case Nil then show ?case by simp
next
  case (Cons x xs)
  show ?case
  proof (cases "x = c")
    case True then show ?thesis using Cons.prems by simp
  next
    case False
    then obtain j where j: "str_index c xs = Some j" "i = Suc j" using Cons.prems by auto
    then show ?thesis using Cons.IH [OF j(1)] False by auto
  qed
qed

lemma str_rindex_None: "c \<notin> set s \<Longrightarrow> str_rindex c s = None"
  by (induction s) auto

lemma str_rindex_last: "c \<notin> set r \<Longrightarrow> str_rindex c (p @ c # r) = Some (length p)"
  by (induction p) (auto simp: str_rindex_None)

lemma get_epoch_no_colon: "CHR '':'' \<notin> set s \<Longrightarrow> get_epoch s = Inr (0, s)"
  by (simp add: get_epoch_def str_index_None)

lemma get_epoch_colon:
  "CHR '':'' \<notin> set p \<Longrightarrow>
     get_epoch (p @ CHR '':'' # r) =
       (case py_int p of Inl e \<Rightarrow> Inl DpkgVersionError | Inr epoch \<Rightarrow> Inr (epoch, r))"
  by (simp add: get_epoch_def str_index_first split: sum.splits)

lemma get_epoch_cases:
  "(CHR '':'' \<notin> set s \<and> get_epoch s = Inr (0, s)) \<or>
   (\<exists>p r. s = p @ CHR '':'' # r \<and> CHR '':'' \<notin> set p)"
proof (cases "str_index CHR '':'' s")
  case None
  then have "CHR '':'' \<notin> set s" by (induction s) (auto split: if_splits)
  then show ?thesis using get_epoch_no_colon by blast
next
  case (Some i)
  then show ?thesis using str_index_Some by blast
qed

lemma get_epoch_append:
  assumes "get_epoch v = Inr (e, u)" "CHR '':'' \<notin> set w"
  shows "get_epoch (v @ w) = Inr (e, u @ w)"
proof -
  consider "CHR '':'' \<notin> set v" "get_epoch v = Inr (0, v)"
    | p r where "v = p @ CHR '':'' # r" "CHR '':'' \<notin> set p"
    using get_epoch_cases [of v] by blast
  then show ?thesis
  proof cases
    case 1
    then show ?thesis using assms get_epoch_no_colon [of "v @ w"] by simp
  next
    case 2
    then show ?thesis using assms get_epoch_colon [of p r] get_epoch_colon [of p "r @ w"]
      by (auto split: sum.splits)
  qed
qed

lemma get_upstream_no_hyphen: "CHR ''-'' \<notin> set u \<Longrightarrow> get_upstream u = (u, ''0'')"
  by (simp add: get_upstream_def str_rindex_None)

lemma get_upstream_last_hyphen:
  "CHR ''-'' \<notin> set d \<Longrightarrow> get_upstream (u @ CHR ''-'' # d) = (u, d)"
  by (simp add: get_upstream_def str_rindex_last)

lemma compare_versions_same_split:
  "split_full_version a = Inr t \<Longrightarrow> split_full_version b = Inr t \<Longrightarrow> compare_versions a b = Inr 0"
  by (cases t) (simp add: compare_versions_def compare_revision_strings_def)

lemma py_int_zero: "py_int ''0'' = Inr 0"
  by code_simp

lemma split_zero_epoch:
  "CHR '':'' \<notin> set v \<Longrightarrow> split_full_version (''0:'' @ v) = split_full_version v"
  using get_epoch_colon [of "''0''" v] 
  by (simp add: split_full_version_def get_epoch_no_colon py_int_zero)

lemma split_zero_revision:
  assumes "get_epoch v = Inr (e, u)" "CHR ''-'' \<notin> set u"
  shows "split_full_version (v @ ''-0'') = Inr (e, u, ''0'') \<and> split_full_version v = Inr (e, u, ''0'')"
proof -
  have "get_epoch (v @ ''-0'') = Inr (e, u @ ''-0'')" using assms(1) by (rule get_epoch_append) simp
  moreover have "get_upstream (u @ ''-0'') = (u, ''0'')"
    using get_upstream_last_hyphen [of "''0''" u] by simp
  ultimately show ?thesis using assms by (simp add: split_full_version_def get_upstream_no_hyphen)
qed

text \<open>
  Claim C8. \<^verbatim>\<open>compare("1.0", "1.0-0")\<close> and \<^verbatim>\<open>compare("0:1.0", "1.0")\<close> are 0. In general, a
  version \<open>v\<close> without a colon (no epoch) equals the same version with the epoch \<open>0:\<close>
  written out, and a version \<open>w\<close> that parses and whose part \<open>u\<close> after the epoch has no
  hyphen (no debian revision) equals \<open>w\<close> with \<open>-0\<close> appended, in both argument orders.
\<close>

theorem interpolated_zero_equal:
  "compare_versions ''1.0'' ''1.0-0'' = Inr 0 \<and>
   compare_versions ''0:1.0'' ''1.0'' = Inr 0 \<and>
   (CHR '':'' \<notin> set v \<longrightarrow>
      compare_versions (''0:'' @ v) v = Inr 0 \<and> compare_versions v (''0:'' @ v) = Inr 0) \<and>
   (get_epoch w = Inr (e, u) \<and> CHR ''-'' \<notin> set u \<longrightarrow>
      compare_versions (w @ ''-0'') w = Inr 0 \<and> compare_versions w (w @ ''-0'') = Inr 0)"
proof -
  have 1: "compare_versions ''1.0'' ''1.0-0'' = Inr 0" by code_simp
  have 2: "compare_versions ''0:1.0'' ''1.0'' = Inr 0" by code_simp
  have 3: "compare_versions (''0:'' @ v) v = Inr 0 \<and> compare_versions v (''0:'' @ v) = Inr 0"
    if nc: "CHR '':'' \<notin> set v"
  proof -
    obtain t where "split_full_version v = Inr t"
      by (cases "get_upstream v") (simp add: split_full_version_def get_epoch_no_colon [OF nc])
    then show ?thesis using split_zero_epoch [OF nc] compare_versions_same_split by metis
  qed
  have 4: "compare_versions (w @ ''-0'') w = Inr 0 \<and> compare_versions w (w @ ''-0'') = Inr 0"
    if "get_epoch w = Inr (e, u) \<and> CHR ''-'' \<notin> set u"
    using that split_zero_revision [of w e u] compare_versions_same_split by metis
  show ?thesis using 1 2 3 4 by blast
qed

theorem interpolated_zero_equal_witness:
  "CHR '':'' \<notin> set ''2.4-1'' \<and> compare_versions ''0:2.4-1'' ''2.4-1'' = Inr 0 \<and>
   get_epoch ''3:2.4'' = Inr (3, ''2.4'') \<and> CHR ''-'' \<notin> set ''2.4'' \<and>
   compare_versions ''3:2.4-0'' ''3:2.4'' = Inr 0"
proof -
  have a: "CHR '':'' \<notin> set ''2.4-1''" by simp
  have b: "get_epoch ''3:2.4'' = Inr (3, ''2.4'')" by code_simp
  have c: "CHR ''-'' \<notin> set ''2.4''" by simp
  show ?thesis
    using a b c interpolated_zero_equal [of "''2.4-1''" "''3:2.4''" 3 "''2.4''"]
    by simp
qed

section \<open>The epoch\<close>

text \<open>
  What \<^verbatim>\<open>int()\<close> accepts: whitespace, then at most one sign, then groups of decimal
  digits joined by single underscores, then whitespace; and nothing else.
\<close>

lemma digit_groups_ends:
  "digit_groups body \<Longrightarrow> body \<noteq> [] \<and> decimal (hd body) \<and> decimal (last body)"
  by (induction body rule: digit_groups.induct) (auto split: if_splits)

lemma dropWhile_all: "list_all P w \<Longrightarrow> dropWhile P (w @ x) = dropWhile P x"
  by (induction w) simp_all

lemma strip_core:
  assumes "list_all int_space w1" "list_all int_space w2" "x \<noteq> []"
    "\<not> int_space (hd x)" "\<not> int_space (last x)"
  shows "strip (w1 @ x @ w2) = x"
proof -
  have "dropWhile int_space (w1 @ x @ w2) = dropWhile int_space (x @ w2)"
    using assms(1) by (rule dropWhile_all)
  also have "\<dots> = x @ w2"
    using assms(3,4) by (intro dropWhile_hd) simp_all
  finally have 1: "dropWhile int_space (w1 @ x @ w2) = x @ w2" .
  have "list_all int_space (rev w2)" using assms(2) by (simp add: list_all_iff)
  then have "dropWhile int_space (rev w2 @ rev x) = dropWhile int_space (rev x)"
    by (rule dropWhile_all)
  also have "\<dots> = rev x"
    using assms(3,5) by (intro dropWhile_hd) (simp_all add: hd_rev)
  finally have 2: "dropWhile int_space (rev (x @ w2)) = rev x" by simp
  show ?thesis unfolding strip_def 1 2 by simp
qed

lemma sign_not_space: "\<not> int_space CHR ''+''" "\<not> int_space CHR ''-''"
  by (simp_all add: int_space_def ord_def)

lemma py_int_forms:
  assumes "list_all int_space w1" "list_all int_space w2"
    "sg = [] \<or> sg = ''+'' \<or> sg = ''-''" "digit_groups body"
  shows "py_int (w1 @ sg @ body @ w2) =
     Inr ((if sg = ''-'' then - 1 else 1) *
          int (digits_value (filter (\<lambda>c. c \<noteq> CHR ''_'') body)))"
proof -
  have b: "body \<noteq> []" "decimal (hd body)" "decimal (last body)"
    using digit_groups_ends [OF assms(4)] by blast+
  have hd_b: "hd body \<noteq> CHR ''-''" "hd body \<noteq> CHR ''+''"
    using b(2) decimal_not_sign by blast+
  let ?x = "sg @ body"
  have x: "?x \<noteq> []" "\<not> int_space (hd ?x)" "\<not> int_space (last ?x)"
    using assms(3) b sign_not_space by (auto simp: decimal_not_space)
  have "strip (w1 @ ?x @ w2) = ?x" by (rule strip_core [OF assms(1,2) x])
  then have s: "strip (w1 @ sg @ body @ w2) = sg @ body" by simp
  show ?thesis
    using assms(3,4) b(1) hd_b by (auto simp: py_int_def s Let_def)
qed

lemma strip_split:
  "\<exists>w1 w2. s = w1 @ strip s @ w2 \<and> list_all int_space w1 \<and> list_all int_space w2"
proof -
  let ?u = "dropWhile int_space s"
  let ?w1 = "takeWhile int_space s"
  let ?w2 = "rev (takeWhile int_space (rev ?u))"
  have u: "?u = strip s @ ?w2"
    unfolding strip_def by (metis rev_append rev_rev_ident takeWhile_dropWhile_id)
  have "s = ?w1 @ ?u" by simp
  then have "s = ?w1 @ strip s @ ?w2" using u by (simp only:)
  moreover have "list_all int_space ?w1" by (rule list_all_takeWhile)
  moreover have "list_all int_space ?w2"
    using list_all_takeWhile [of int_space "rev ?u"] by (simp add: list_all_iff)
  ultimately show ?thesis by blast
qed

lemma py_int_accepts:
  assumes "py_int p = Inr n"
  shows "\<exists>w1 sg body w2. p = w1 @ sg @ body @ w2 \<and> list_all int_space w1 \<and>
     list_all int_space w2 \<and> (sg = [] \<or> sg = ''+'' \<or> sg = ''-'') \<and> digit_groups body"
proof -
  obtain w1 w2 where w: "p = w1 @ strip p @ w2" "list_all int_space w1" "list_all int_space w2"
    using strip_split by blast
  let ?t = "strip p"
  show ?thesis
  proof (cases "?t \<noteq> [] \<and> (hd ?t = CHR ''-'' \<or> hd ?t = CHR ''+'')")
    case True
    then have g: "digit_groups (tl ?t)"
      using assms by (simp add: py_int_def Let_def split: if_splits)
    have "?t = [hd ?t] @ tl ?t" using True by simp
    then have "p = w1 @ [hd ?t] @ tl ?t @ w2" using w(1) by (metis append.assoc)
    moreover have "[hd ?t] = [] \<or> [hd ?t] = ''+'' \<or> [hd ?t] = ''-''" using True by auto
    ultimately show ?thesis using w(2,3) g by blast
  next
    case False
    then have g: "digit_groups ?t"
      using assms by (simp add: py_int_def Let_def split: if_splits)
    have "p = w1 @ [] @ ?t @ w2" using w(1) by simp
    then show ?thesis using w(2,3) g by blast
  qed
qed

lemma split_at_first:
  assumes "c \<in> set s"
  shows "s = takeWhile (\<lambda>x. x \<noteq> c) s @ c # tl (dropWhile (\<lambda>x. x \<noteq> c) s) \<and>
         c \<notin> set (takeWhile (\<lambda>x. x \<noteq> c) s)"
proof -
  have "dropWhile (\<lambda>x. x \<noteq> c) s \<noteq> []" using assms by auto
  moreover from this have "hd (dropWhile (\<lambda>x. x \<noteq> c) s) = c"
    using hd_dropWhile [of "\<lambda>x. x \<noteq> c" s] by simp
  ultimately have "dropWhile (\<lambda>x. x \<noteq> c) s = c # tl (dropWhile (\<lambda>x. x \<noteq> c) s)"
    by (metis list.collapse)
  then have "s = takeWhile (\<lambda>x. x \<noteq> c) s @ c # tl (dropWhile (\<lambda>x. x \<noteq> c) s)"
    by (metis takeWhile_dropWhile_id)
  moreover have "c \<notin> set (takeWhile (\<lambda>x. x \<noteq> c) s)"
    using set_takeWhileD [of c "\<lambda>x. x \<noteq> c" s] by blast
  ultimately show ?thesis by blast
qed

lemma get_epoch_first_colon:
  assumes "CHR '':'' \<in> set s"
  shows "get_epoch s =
     (case py_int (takeWhile (\<lambda>c. c \<noteq> CHR '':'') s) of
        Inl e \<Rightarrow> Inl DpkgVersionError
      | Inr epoch \<Rightarrow> Inr (epoch, tl (dropWhile (\<lambda>c. c \<noteq> CHR '':'') s)))"
proof -
  let ?p = "takeWhile (\<lambda>c. c \<noteq> CHR '':'') s" and ?r = "tl (dropWhile (\<lambda>c. c \<noteq> CHR '':'') s)"
  have "s = ?p @ CHR '':'' # ?r" "CHR '':'' \<notin> set ?p"
    using split_at_first [OF assms] by blast+
  then show ?thesis using get_epoch_colon [of ?p ?r] by simp
qed

text \<open>
  Claim C3, as the code has it. \<^verbatim>\<open>get_epoch\<close> raises exactly when the string has a colon
  and \<^verbatim>\<open>int()\<close> rejects the prefix before the first colon, and what it raises is
  \<open>DpkgVersionError\<close>; when \<^verbatim>\<open>int()\<close> accepts the prefix, the result is its value with
  what follows the first colon; without a colon it is 0 with the whole string.
  \<^verbatim>\<open>int()\<close> accepts exactly the prefixes made of whitespace, at most one sign, groups
  of decimal digits joined by single underscores, and whitespace, and its value is the
  number that the digits spell, negated after a minus sign; so every non-empty run of
  decimal digits is accepted with its decimal value, and so are \<^verbatim>\<open>-1\<close>, \<^verbatim>\<open>+1\<close>, a \<^verbatim>\<open>1\<close>
  between spaces or after a no-break space, and \<^verbatim>\<open>1_0\<close>. The three examples of the claim
  hold.
\<close>

theorem get_epoch_spec:
  "((\<exists>e. get_epoch s = Inl e) \<longleftrightarrow>
      (CHR '':'' \<in> set s \<and> py_int (takeWhile (\<lambda>c. c \<noteq> CHR '':'') s) = Inl ValueError)) \<and>
   (get_epoch s = Inl e \<longrightarrow> e = DpkgVersionError) \<and>
   (CHR '':'' \<in> set s \<and> py_int (takeWhile (\<lambda>c. c \<noteq> CHR '':'') s) = Inr n \<longrightarrow>
      get_epoch s = Inr (n, tl (dropWhile (\<lambda>c. c \<noteq> CHR '':'') s))) \<and>
   (CHR '':'' \<notin> set s \<longrightarrow> get_epoch s = Inr (0, s)) \<and>
   ((\<exists>m. py_int q = Inr m) \<longleftrightarrow>
      (\<exists>v1 g b v2. q = v1 @ g @ b @ v2 \<and> list_all int_space v1 \<and> list_all int_space v2 \<and>
         (g = [] \<or> g = ''+'' \<or> g = ''-'') \<and> digit_groups b)) \<and>
   (list_all int_space w1 \<and> list_all int_space w2 \<and> (sg = [] \<or> sg = ''+'' \<or> sg = ''-'') \<and>
    digit_groups body \<longrightarrow>
      py_int (w1 @ sg @ body @ w2) =
        Inr ((if sg = ''-'' then - 1 else 1) *
             int (digits_value (filter (\<lambda>c. c \<noteq> CHR ''_'') body)))) \<and>
   (valid_nonneg_integer p \<longrightarrow> py_int p = Inr (int (digits_value p))) \<and>
   get_epoch ''1:2.0'' = Inr (1, ''2.0'') \<and>
   get_epoch ''2.0'' = Inr (0, ''2.0'') \<and>
   get_epoch ''nope:2.0'' = Inl DpkgVersionError \<and>
   get_epoch ''-1:2.0'' = Inr (- 1, ''2.0'') \<and>
   get_epoch ''+1:2.0'' = Inr (1, ''2.0'') \<and>
   get_epoch '' 1 :2.0'' = Inr (1, ''2.0'') \<and>
   get_epoch ''1_0:2.0'' = Inr (10, ''2.0'') \<and>
   get_epoch (CHR 0xA0 # ''1:2.0'') = Inr (1, ''2.0'')"
proof -
  have 1: "(\<exists>e. get_epoch s = Inl e) \<longleftrightarrow>
      (CHR '':'' \<in> set s \<and> py_int (takeWhile (\<lambda>c. c \<noteq> CHR '':'') s) = Inl ValueError)"
  proof (cases "CHR '':'' \<in> set s")
    case True
    show ?thesis using True get_epoch_first_colon [OF True] py_int_error
      by (auto split: sum.splits)
  next
    case False
    then show ?thesis by (simp add: get_epoch_no_colon)
  qed
  have 2: "e = DpkgVersionError" if "get_epoch s = Inl e"
  proof (cases "CHR '':'' \<in> set s")
    case True
    show ?thesis using that get_epoch_first_colon [OF True] by (auto split: sum.splits)
  next
    case False
    then show ?thesis using that by (simp add: get_epoch_no_colon)
  qed
  have 3: "get_epoch s = Inr (n, tl (dropWhile (\<lambda>c. c \<noteq> CHR '':'') s))"
    if "CHR '':'' \<in> set s \<and> py_int (takeWhile (\<lambda>c. c \<noteq> CHR '':'') s) = Inr n"
    using that get_epoch_first_colon [of s] by simp
  have 4: "get_epoch s = Inr (0, s)" if "CHR '':'' \<notin> set s"
    using that by (rule get_epoch_no_colon)
  have 5: "(\<exists>m. py_int q = Inr m) \<longleftrightarrow>
      (\<exists>v1 g b v2. q = v1 @ g @ b @ v2 \<and> list_all int_space v1 \<and> list_all int_space v2 \<and>
         (g = [] \<or> g = ''+'' \<or> g = ''-'') \<and> digit_groups b)"
    using py_int_accepts [of q] py_int_forms by blast
  have 6: "py_int (w1 @ sg @ body @ w2) =
        Inr ((if sg = ''-'' then - 1 else 1) *
             int (digits_value (filter (\<lambda>c. c \<noteq> CHR ''_'') body)))"
    if "list_all int_space w1 \<and> list_all int_space w2 \<and> (sg = [] \<or> sg = ''+'' \<or> sg = ''-'') \<and>
        digit_groups body"
    using that py_int_forms [of w1 w2 sg body] by blast
  have 7: "py_int p = Inr (int (digits_value p))" if "valid_nonneg_integer p"
    using that py_int_digits by (simp add: valid_nonneg_integer_def)
  have 8: "get_epoch ''1:2.0'' = Inr (1, ''2.0'')" "get_epoch ''2.0'' = Inr (0, ''2.0'')"
    "get_epoch ''nope:2.0'' = Inl DpkgVersionError" "get_epoch ''-1:2.0'' = Inr (- 1, ''2.0'')"
    "get_epoch ''+1:2.0'' = Inr (1, ''2.0'')" "get_epoch '' 1 :2.0'' = Inr (1, ''2.0'')"
    "get_epoch ''1_0:2.0'' = Inr (10, ''2.0'')"
    "get_epoch (CHR 0xA0 # ''1:2.0'') = Inr (1, ''2.0'')"
    by code_simp+
  show ?thesis using 1 2 3 4 5 6 7 8 by blast
qed

theorem get_epoch_spec_witness:
  "CHR '':'' \<in> set ''-1:2.0'' \<and> py_int (takeWhile (\<lambda>c. c \<noteq> CHR '':'') ''-1:2.0'') = Inr (- 1) \<and>
   get_epoch ''-1:2.0'' = Inr (- 1, ''2.0'') \<and>
   CHR '':'' \<notin> set ''2.0'' \<and> get_epoch ''2.0'' = Inr (0, ''2.0'') \<and>
   valid_nonneg_integer ''12'' \<and> py_int ''12'' = Inr 12 \<and>
   list_all int_space '' '' \<and> list_all int_space [CHR 0xA0] \<and> digit_groups ''1_0'' \<and>
   py_int ('' -1_0'' @ [CHR 0xA0]) = Inr (- 10)"
proof -
  have a: "CHR '':'' \<in> set ''-1:2.0''" by simp
  have b: "py_int (takeWhile (\<lambda>c. c \<noteq> CHR '':'') ''-1:2.0'') = Inr (- 1)" by code_simp
  have c: "CHR '':'' \<notin> set ''2.0''" by simp
  have d: "valid_nonneg_integer ''12''" by code_simp
  have e: "int (digits_value ''12'') = 12" by code_simp
  have f: "tl (dropWhile (\<lambda>c. c \<noteq> CHR '':'') ''-1:2.0'') = ''2.0''" by simp
  have g: "list_all int_space '' ''" "list_all int_space [CHR 0xA0]" "digit_groups ''1_0''"
    by code_simp+
  have h: "int (digits_value (filter (\<lambda>c. c \<noteq> CHR ''_'') ''1_0'')) = 10" by code_simp
  have i: "'' '' @ ''-'' @ ''1_0'' @ [CHR 0xA0] = '' -1_0'' @ [CHR 0xA0]" by simp
  have "py_int ('' '' @ ''-'' @ ''1_0'' @ [CHR 0xA0]) = Inr (- 1 * 10)"
    using g h get_epoch_spec [where ?w1.0 = "'' ''" and ?w2.0 = "[CHR 0xA0]" and sg = "''-''"
        and body = "''1_0''"]
    by simp
  then have j: "py_int ('' -1_0'' @ [CHR 0xA0]) = Inr (- 10)" by (simp only: i) simp
  show ?thesis
    using a b c d e f g j get_epoch_spec [where s = "''-1:2.0''" and n = "- 1" and p = "''12''"]
      get_epoch_spec [where s = "''2.0''" and p = "''12''"]
    by simp
qed

text \<open>
  Claim C3, as stated, fails: the prefix \<^verbatim>\<open>-1\<close> is not a non-negative integer, yet
  \<^verbatim>\<open>get_epoch("-1:2.0")\<close> does not raise; \<^verbatim>\<open>int("-1")\<close> is \<open>-1\<close>, and the epoch is negative.
\<close>

theorem get_epoch_negative_epoch:
  "CHR '':'' \<in> set ''-1:2.0'' \<and>
   \<not> valid_nonneg_integer (takeWhile (\<lambda>c. c \<noteq> CHR '':'') ''-1:2.0'') \<and>
   get_epoch ''-1:2.0'' = Inr (- 1, ''2.0'')"
  by code_simp

section \<open>Reconstructing a revision from its tokens\<close>

declare str_nat.simps [simp del]

lemma digits_value_snoc: "digits_value (ds @ [c]) = 10 * digits_value ds + digit_value c"
  by (simp add: digits_value_def)

lemma foldl_digits_ge: "a \<le> foldl (\<lambda>acc c. 10 * acc + digit_value c) a ds"
proof (induction ds arbitrary: a)
  case Nil show ?case by simp
next
  case (Cons c ds)
  have "a \<le> 10 * a + digit_value c" by simp
  also have "\<dots> \<le> foldl (\<lambda>acc c. 10 * acc + digit_value c) (10 * a + digit_value c) ds"
    by (rule Cons.IH)
  finally show ?case by simp
qed

lemma digit_value_less: "decimal c \<Longrightarrow> digit_value c < 10"
  by (auto simp: decimal_def digit_value_def)

lemma digit_value_char: "decimal c \<Longrightarrow> char_of (48 + digit_value c) = c"
  by (simp add: decimal_def digit_value_def ord_def)

lemma digit_value_zero: "decimal c \<Longrightarrow> digit_value c = 0 \<longleftrightarrow> c = CHR ''0''"
proof -
  assume d: "decimal c"
  have "digit_value c = 0 \<longleftrightarrow> ord c = ord CHR ''0''"
    using d by (auto simp: decimal_def digit_value_def ord_def)
  then show ?thesis by (simp add: ord_inject)
qed

lemma digits_value_pos:
  assumes "ds \<noteq> []" "list_all decimal ds" "hd ds \<noteq> CHR ''0''"
  shows "0 < digits_value ds"
proof -
  obtain c cs where ds: "ds = c # cs" using assms(1) by (cases ds) auto
  then have "0 < digit_value c" using assms digit_value_zero [of c] by auto
  moreover have "digit_value c \<le> digits_value ds"
    using foldl_digits_ge [of "digit_value c" cs] by (simp add: ds digits_value_def)
  ultimately show ?thesis by simp
qed

lemma str_nat_digits_value:
  "ds \<noteq> [] \<Longrightarrow> list_all decimal ds \<Longrightarrow> hd ds \<noteq> CHR ''0'' \<or> tl ds = [] \<Longrightarrow>
     str_nat (digits_value ds) = ds"
proof (induction ds rule: rev_induct)
  case Nil then show ?case by simp
next
  case (snoc c ds)
  have c: "decimal c" using snoc.prems by simp
  show ?case
  proof (cases "ds = []")
    case True
    then show ?thesis using c digit_value_less [OF c] digit_value_char [OF c]
      by (simp add: digits_value_def str_nat.simps)
  next
    case False
    then have h: "hd ds \<noteq> CHR ''0''" using snoc.prems by (cases ds) auto
    have all: "list_all decimal ds" using snoc.prems by simp
    have pos: "0 < digits_value ds" using digits_value_pos [OF False all h] .
    have ih: "str_nat (digits_value ds) = ds" using snoc.IH [OF False all] h by simp
    let ?n = "10 * digits_value ds + digit_value c"
    have "\<not> ?n < 10" using pos by simp
    moreover have "?n div 10 = digits_value ds" "?n mod 10 = digit_value c"
      using digit_value_less [OF c] by simp_all
    ultimately have "str_nat ?n = ds @ [c]"
      using ih digit_value_char [OF c] by (subst str_nat.simps) simp
    then show ?thesis by (simp add: digits_value_snoc)
  qed
qed

lemma zero_isdigit: "\<not> isdigit c \<Longrightarrow> c \<noteq> CHR ''0''"
  by (auto simp: isdigit_def ord_def)

lemma padded_run_alphas:
  "list_all (\<lambda>c. \<not> isdigit c) a \<Longrightarrow>
     padded_run f (a @ t) = (if a = [] then padded_run f t else padded_run False t)"
proof (induction a arbitrary: f)
  case Nil show ?case by simp
next
  case (Cons c a)
  then have c: "\<not> isdigit c" "c \<noteq> CHR ''0''" using zero_isdigit by auto
  show ?case
  proof (cases "a @ t")
    case Nil then show ?thesis by simp
  next
    case (Cons x xs)
    have "padded_run f (c # a @ t) = padded_run False (a @ t)"
      using c by (simp add: Cons)
    then show ?thesis using Cons.IH [of False] \<open>list_all (\<lambda>c. \<not> isdigit c) (c # a)\<close>
      by simp
  qed
qed

lemma padded_run_flag:
  assumes "t = [] \<or> \<not> isdigit (hd t)"
  shows "padded_run True t = padded_run False t"
proof (cases t)
  case Nil then show ?thesis by simp
next
  case (Cons c r)
  then have "c \<noteq> CHR ''0''" using assms zero_isdigit by auto
  then show ?thesis using Cons by (cases r) simp_all
qed

lemma padded_run_digits_tail:
  "list_all isdigit d \<Longrightarrow> t = [] \<or> \<not> isdigit (hd t) \<Longrightarrow>
     padded_run True (d @ t) = padded_run False t"
proof (induction d)
  case Nil then show ?case using padded_run_flag by simp
next
  case (Cons c d)
  show ?case
  proof (cases "d @ t")
    case Nil then show ?thesis by simp
  next
    case (Cons x xs)
    have "padded_run True (c # d @ t) = padded_run True (d @ t)"
      using \<open>list_all isdigit (c # d)\<close> by (simp add: Cons)
    then show ?thesis using Cons.IH Cons.prems by simp
  qed
qed

lemma padded_run_digits:
  assumes "d \<noteq> []" "list_all isdigit d" "t = [] \<or> \<not> isdigit (hd t)"
  shows "padded_run False (d @ t) = ((hd d = CHR ''0'' \<and> tl d \<noteq> []) \<or> padded_run False t)"
proof -
  obtain c d' where d: "d = c # d'" using assms(1) by (cases d) auto
  have all: "isdigit c" "list_all isdigit d'" using assms(2) d by auto
  show ?thesis
  proof (cases "d' @ t")
    case Nil then show ?thesis using d by simp
  next
    case (Cons x xs)
    have "isdigit x \<longleftrightarrow> d' \<noteq> []"
    proof (cases d')
      case Nil then show ?thesis using Cons assms(3) by auto
    next
      case (Cons y ys) then show ?thesis using \<open>d' @ t = x # xs\<close> all by auto
    qed
    moreover have "padded_run False (c # d' @ t) =
        ((c = CHR ''0'' \<and> isdigit x) \<or> padded_run True (d' @ t))"
      using all by (simp add: Cons)
    ultimately show ?thesis
      using padded_run_digits_tail [OF all(2) assms(3)] d by simp
  qed
qed

lemma reconstruct_append: "reconstruct (xs @ ys) = reconstruct xs @ reconstruct ys"
  by (simp add: reconstruct_def)

lemma listify_loop_acc:
  "listify_loop s (acc @ result) =
     (case listify_loop s result of Inl e \<Rightarrow> Inl e | Inr ts \<Rightarrow> Inr (acc @ ts))"
proof (induction s result rule: listify_loop.induct)
  case (1 s result)
  show ?case
  proof (cases "s = []")
    case True then show ?thesis by simp
  next
    case False
    let ?r = "dropWhile (\<lambda>c. \<not> isdigit c) s"
    show ?thesis
    proof (cases "get_digits ?r")
      case (Inl e)
      then show ?thesis
        using listify_loop_unfold [OF False, of result]
          listify_loop_unfold [OF False, of "acc @ result"] by simp
    next
      case (Inr y)
      obtain n r' where y: "y = (n, r')" by (cases y)
      show ?thesis
        using "1.IH" [OF False get_alphas_eq [symmetric] Inr [unfolded y] refl]
          listify_loop_unfold [OF False, of result]
          listify_loop_unfold [OF False, of "acc @ result"] Inr y
        by simp
    qed
  qed
qed

lemma listify_unfold:
  assumes "s \<noteq> []" "list_all ascii s"
  shows "listify s =
     (case listify (dropWhile isdigit (dropWhile (\<lambda>c. \<not> isdigit c) s)) of
        Inl e \<Rightarrow> Inl e
      | Inr ts \<Rightarrow>
          Inr (PyStr (takeWhile (\<lambda>c. \<not> isdigit c) s) #
               PyInt (int (digits_value (takeWhile isdigit (dropWhile (\<lambda>c. \<not> isdigit c) s)))) # ts))"
proof -
  let ?a = "takeWhile (\<lambda>c. \<not> isdigit c) s"
  let ?r = "dropWhile (\<lambda>c. \<not> isdigit c) s"
  let ?n = "int (digits_value (takeWhile isdigit ?r))"
  let ?r' = "dropWhile isdigit ?r"
  have "listify s = listify_loop ?r' ([PyStr ?a, PyInt ?n] @ [])"
    using listify_loop_step [OF assms, of "[]"] by (simp add: listify_def)
  also have "\<dots> = (case listify_loop ?r' [] of Inl e \<Rightarrow> Inl e
      | Inr ts \<Rightarrow> Inr ([PyStr ?a, PyInt ?n] @ ts))"
    by (rule listify_loop_acc)
  finally show ?thesis by (simp add: listify_def split: sum.splits)
qed

lemma str_int_nat: "str_int (int n) = str_nat n"
  by (simp add: str_int_def)

lemma listify_reconstruct:
  "list_all ascii s \<Longrightarrow> s = [] \<or> isdigit (last s) \<Longrightarrow> \<not> padded_run False s \<Longrightarrow>
     \<exists>ts. listify s = Inr ts \<and> reconstruct ts = s"
proof (induction s rule: length_induct)
  case (1 s)
  show ?case
  proof (cases "s = []")
    case True
    then show ?thesis by (simp add: listify_def reconstruct_def)
  next
    case False
    let ?a = "takeWhile (\<lambda>c. \<not> isdigit c) s"
    let ?r = "dropWhile (\<lambda>c. \<not> isdigit c) s"
    let ?d = "takeWhile isdigit ?r"
    let ?r' = "dropWhile isdigit ?r"
    have s: "?a @ ?d @ ?r' = s" by simp
    have last_digit: "isdigit (last s)" using "1.prems"(2) False by simp
    have a_all: "list_all (\<lambda>c. \<not> isdigit c) ?a"
      by (rule list_all_takeWhile)
    have d_all: "list_all isdigit ?d"
      by (rule list_all_takeWhile)
    have d_dec: "list_all decimal ?d"
      using "1.prems"(1) by (intro ascii_run_decimal ascii_dropWhile)
    have asc': "list_all ascii ?r'"
      using "1.prems"(1) by (intro ascii_dropWhile)
    have r_ne: "?r \<noteq> []"
    proof
      assume "?r = []"
      then have "\<forall>c\<in>set s. \<not> isdigit c" by (simp add: dropWhile_eq_Nil_conv)
      then show False using last_digit False last_in_set by blast
    qed
    then have "isdigit (hd ?r)" using hd_dropWhile [of "\<lambda>c. \<not> isdigit c" s] by simp
    then have d_ne: "?d \<noteq> []" using r_ne by (cases ?r) auto
    have r'_hd: "?r' = [] \<or> \<not> isdigit (hd ?r')"
      using hd_dropWhile [of isdigit ?r] by blast
    have r'_last: "?r' = [] \<or> isdigit (last ?r')"
    proof (cases "?r' = []")
      case True then show ?thesis by (rule disjI1)
    next
      case False
      have ne: "?d @ ?r' \<noteq> []" using d_ne by blast
      have "last (?a @ ?d @ ?r') = last (?d @ ?r')" using ne by (rule last_appendR)
      also have "\<dots> = last ?r'" using False by (rule last_appendR)
      finally have "last s = last ?r'" by (simp only: s)
      then have "isdigit (last ?r')" using last_digit by (simp only:)
      then show ?thesis by (rule disjI2)
    qed
    have "padded_run False s = padded_run False (?a @ ?d @ ?r')" by (simp only: s)
    also have "\<dots> = padded_run False (?d @ ?r')"
      using padded_run_alphas [OF a_all, of False "?d @ ?r'"] by simp
    also have "\<dots> = ((hd ?d = CHR ''0'' \<and> tl ?d \<noteq> []) \<or> padded_run False ?r')"
      by (rule padded_run_digits [OF d_ne d_all r'_hd])
    finally have canon: "hd ?d \<noteq> CHR ''0'' \<or> tl ?d = []" and rest: "\<not> padded_run False ?r'"
      using "1.prems"(3) by auto
    have "length ?r' < length s" using listify_step_shorter [OF False] .
    then obtain ts where ts: "listify ?r' = Inr ts" "reconstruct ts = ?r'"
      using "1.IH" asc' r'_last rest by blast
    have "str_nat (digits_value ?d) = ?d"
      by (rule str_nat_digits_value [OF d_ne d_dec canon])
    then have "reconstruct (PyStr ?a # PyInt (int (digits_value ?d)) # ts) = ?a @ ?d @ ?r'"
      using ts(2) by (simp add: reconstruct_def str_int_nat del: takeWhile_dropWhile_id)
    then have "reconstruct (PyStr ?a # PyInt (int (digits_value ?d)) # ts) = s"
      by (simp only: s)
    then show ?thesis using listify_unfold [OF False "1.prems"(1)] ts(1) by simp
  qed
qed

text \<open>
  The converse: what \<^verbatim>\<open>str()\<close> renders is a run of digits without a superfluous
  leading zero, and the rendering of the tokens of the rest begins where the rest
  begins, so a string that comes back unchanged had the shape above.
\<close>

lemma decimal_char_of: "(k::nat) < 10 \<Longrightarrow> decimal (char_of (48 + k))"
  by (simp add: decimal_def ord_def)

lemma char_of_zero: "(k::nat) < 10 \<Longrightarrow> char_of (48 + k) = CHR ''0'' \<longleftrightarrow> k = 0"
proof -
  assume k: "k < 10"
  have "ord (char_of (48 + k)) = 48 + k" using k by (simp add: ord_def)
  moreover have "ord CHR ''0'' = 48" by (simp add: ord_def)
  ultimately show ?thesis using ord_inject [of "char_of (48 + k)" "CHR ''0''"] by auto
qed

lemma str_nat_digits: "str_nat n \<noteq> [] \<and> list_all decimal (str_nat n)"
proof (induction n rule: str_nat.induct)
  case (1 n)
  show ?case
  proof (cases "n < 10")
    case True
    then show ?thesis by (subst (1 2) str_nat.simps) (simp add: decimal_char_of)
  next
    case False
    then show ?thesis using 1 by (subst (1 2) str_nat.simps) (simp add: decimal_char_of)
  qed
qed

lemma str_nat_hd: "0 < n \<Longrightarrow> hd (str_nat n) \<noteq> CHR ''0''"
proof (induction n rule: str_nat.induct)
  case (1 n)
  show ?case
  proof (cases "n < 10")
    case True
    then show ?thesis using 1(2) by (subst str_nat.simps) (simp add: char_of_zero)
  next
    case False
    then have "0 < n div 10" by simp
    then have "hd (str_nat (n div 10)) \<noteq> CHR ''0''" using 1(1) False by simp
    then show ?thesis using False str_nat_digits [of "n div 10"]
      by (subst str_nat.simps) simp
  qed
qed

lemma str_nat_canonical: "hd (str_nat n) \<noteq> CHR ''0'' \<or> tl (str_nat n) = []"
proof (cases "n = 0")
  case True then show ?thesis by (simp add: str_nat.simps)
next
  case False then show ?thesis using str_nat_hd by simp
qed

lemma list_all_decimal_isdigit: "list_all decimal xs \<Longrightarrow> list_all isdigit xs"
  by (induction xs) (simp_all add: decimal_isdigit)

lemma digit_prefix_unique:
  assumes "list_all P x" "r = [] \<or> \<not> P (hd r)"
  shows "takeWhile P (x @ r) = x \<and> dropWhile P (x @ r) = r"
proof -
  have 1: "\<forall>c\<in>set x. P c" using assms(1) by (simp add: list_all_iff)
  have 2: "takeWhile P r = [] \<and> dropWhile P r = r" using assms(2) by (cases r) auto
  show ?thesis using 1 2 by (simp add: takeWhile_append2 dropWhile_append2)
qed

lemma reconstruct_head:
  assumes "listify r = Inr ts" "r = [] \<or> \<not> isdigit (hd r)" "list_all ascii r"
  shows "reconstruct ts = [] \<or> \<not> isdigit (hd (reconstruct ts))"
proof (cases "r = []")
  case True
  then show ?thesis using assms(1) by (simp add: listify_def reconstruct_def)
next
  case False
  then obtain c cs where r: "r = c # cs" "\<not> isdigit c" using assms(2) by (cases r) auto
  then obtain a where a: "takeWhile (\<lambda>c. \<not> isdigit c) r = c # a" by simp
  obtain ts' where "ts = PyStr (c # a) # ts'"
    using assms(1) listify_unfold [OF False assms(3)] a by (auto split: sum.splits)
  then show ?thesis using r(2) by (simp add: reconstruct_def)
qed

lemma listify_reconstruct_only:
  "list_all ascii s \<Longrightarrow> listify s = Inr ts \<Longrightarrow> reconstruct ts = s \<Longrightarrow>
     (s = [] \<or> isdigit (last s)) \<and> \<not> padded_run False s"
proof (induction s arbitrary: ts rule: length_induct)
  case (1 s)
  show ?case
  proof (cases "s = []")
    case True then show ?thesis by simp
  next
    case False
    let ?a = "takeWhile (\<lambda>c. \<not> isdigit c) s"
    let ?r = "dropWhile (\<lambda>c. \<not> isdigit c) s"
    let ?d = "takeWhile isdigit ?r"
    let ?r' = "dropWhile isdigit ?r"
    let ?x = "str_nat (digits_value ?d)"
    have s: "?a @ ?d @ ?r' = s" by simp
    have a_all: "list_all (\<lambda>c. \<not> isdigit c) ?a" by (rule list_all_takeWhile)
    have d_all: "list_all isdigit ?d" by (rule list_all_takeWhile)
    have r'_hd: "?r' = [] \<or> \<not> isdigit (hd ?r')"
      using hd_dropWhile [of isdigit ?r] by blast
    have asc': "list_all ascii ?r'"
      using "1.prems"(1) by (intro ascii_dropWhile)
    obtain ts' where ts': "listify ?r' = Inr ts'"
        "ts = PyStr ?a # PyInt (int (digits_value ?d)) # ts'"
      using "1.prems"(2) listify_unfold [OF False "1.prems"(1)] by (auto split: sum.splits)
    let ?R = "reconstruct ts'"
    have "reconstruct ts = ?a @ ?x @ ?R"
      by (simp add: ts'(2) reconstruct_def str_int_nat)
    then have "?a @ ?x @ ?R = ?a @ ?d @ ?r'" using "1.prems"(3) by (simp only: s)
    then have eq: "?x @ ?R = ?d @ ?r'" by (simp only: same_append_eq)
    have R_hd: "?R = [] \<or> \<not> isdigit (hd ?R)" by (rule reconstruct_head [OF ts'(1) r'_hd asc'])
    have "list_all decimal ?x" using str_nat_digits [of "digits_value ?d"] by blast
    then have x_all: "list_all isdigit ?x" by (rule list_all_decimal_isdigit)
    have "takeWhile isdigit (?x @ ?R) = ?x \<and> dropWhile isdigit (?x @ ?R) = ?R"
      by (rule digit_prefix_unique [OF x_all R_hd])
    moreover have "takeWhile isdigit (?d @ ?r') = ?d \<and> dropWhile isdigit (?d @ ?r') = ?r'"
      by (rule digit_prefix_unique [OF d_all r'_hd])
    ultimately have xd: "?x = ?d" and Rr: "?R = ?r'" using eq by (simp_all only:)
    have d_ne: "?d \<noteq> []" using str_nat_digits [of "digits_value ?d"] unfolding xd by blast
    have canon: "hd ?d \<noteq> CHR ''0'' \<or> tl ?d = []"
      using xd str_nat_canonical [of "digits_value ?d"] by (simp only:)
    have "length ?r' < length s" using listify_step_shorter [OF False] .
    then have ih: "(?r' = [] \<or> isdigit (last ?r')) \<and> \<not> padded_run False ?r'"
      using "1.IH" asc' ts'(1) Rr by blast
    have "padded_run False s = padded_run False (?a @ ?d @ ?r')" by (simp only: s)
    also have "\<dots> = padded_run False (?d @ ?r')"
      using padded_run_alphas [OF a_all, of False "?d @ ?r'"] by simp
    also have "\<dots> = ((hd ?d = CHR ''0'' \<and> tl ?d \<noteq> []) \<or> padded_run False ?r')"
      by (rule padded_run_digits [OF d_ne d_all r'_hd])
    finally have np: "\<not> padded_run False s" using canon ih by blast
    have "isdigit (last s)"
    proof (cases "?r' = []")
      case True
      have "last (?a @ ?d) = last ?d" using d_ne by (rule last_appendR)
      moreover have "isdigit (last ?d)" using d_all d_ne by (simp only: list_all_iff) (meson last_in_set)
      moreover have "?a @ ?d = s" using s True by (simp only: append_Nil2)
      ultimately show ?thesis by (simp only:)
    next
      case False
      have ne: "?d @ ?r' \<noteq> []" using d_ne by blast
      have "last (?a @ ?d @ ?r') = last (?d @ ?r')" using ne by (rule last_appendR)
      also have "\<dots> = last ?r'" using False by (rule last_appendR)
      finally have "last s = last ?r'" by (simp only: s)
      then show ?thesis using ih False by (simp only:) blast
    qed
    then show ?thesis using np by blast
  qed
qed

lemma revision_char_ascii: "revision_char c \<Longrightarrow> ascii c"
  by (auto simp: revision_char_def ascii_def decimal_def ord_def)

text \<open>
  Claim C4, as the code has it. For every revision string made of ASCII letters, digits
  and \<^verbatim>\<open>.\<close>, \<^verbatim>\<open>-\<close>, \<^verbatim>\<open>~\<close>, \<^verbatim>\<open>+\<close>, the string tokens and the decimal renderings of the
  integer tokens that \<^verbatim>\<open>listify\<close> returns, concatenated in order, are the original
  string if and only if the string is empty or ends with a digit, and no run of digits
  in it begins with a \<^verbatim>\<open>0\<close> that another digit follows.
\<close>

theorem listify_lossless_canonical:
  "list_all revision_char s \<Longrightarrow>
     (\<exists>ts. listify s = Inr ts \<and> reconstruct ts = s) \<longleftrightarrow>
     ((s = [] \<or> isdigit (last s)) \<and> \<not> zero_padded s)"
proof -
  assume "list_all revision_char s"
  then have "list_all ascii s"
    using revision_char_ascii by (auto simp: list_all_iff)
  then show ?thesis
    using listify_reconstruct [of s] listify_reconstruct_only [of s]
    unfolding zero_padded_def by blast
qed

theorem listify_lossless_canonical_witness:
  "list_all revision_char ''1.2-3'' \<and> isdigit (last ''1.2-3'') \<and> \<not> zero_padded ''1.2-3'' \<and>
   listify ''1.2-3'' = Inr [PyStr [], PyInt 1, PyStr ''.'', PyInt 2, PyStr ''-'', PyInt 3] \<and>
   reconstruct [PyStr [], PyInt 1, PyStr ''.'', PyInt 2, PyStr ''-'', PyInt 3] = ''1.2-3''"
proof -
  have a: "list_all revision_char ''1.2-3''" by code_simp
  have b: "isdigit (last ''1.2-3'')" by code_simp
  have c: "\<not> zero_padded ''1.2-3''" by code_simp
  have d: "listify ''1.2-3'' = Inr [PyStr [], PyInt 1, PyStr ''.'', PyInt 2, PyStr ''-'', PyInt 3]"
    by code_simp
  obtain ts where ts: "listify ''1.2-3'' = Inr ts" "reconstruct ts = ''1.2-3''"
    using listify_lossless_canonical [OF a] b c by blast
  have "ts = [PyStr [], PyInt 1, PyStr ''.'', PyInt 2, PyStr ''-'', PyInt 3]"
    using d ts(1) by simp
  then show ?thesis using a b c d ts(2) by simp
qed

text \<open>
  Claim C4, as stated, fails. A string that does not end with a digit gets the padding
  integer 0, which is rendered: \<^verbatim>\<open>"a"\<close> comes back as \<^verbatim>\<open>"a0"\<close>. A run of digits is
  turned into its value, so its leading zeros are lost: \<^verbatim>\<open>"1.01"\<close> comes back as
  \<^verbatim>\<open>"1.1"\<close>.
\<close>

theorem listify_not_lossless:
  "list_all revision_char ''a'' \<and>
   listify ''a'' = Inr [PyStr ''a'', PyInt 0] \<and>
   reconstruct [PyStr ''a'', PyInt 0] = ''a0'' \<and> ''a0'' \<noteq> ''a'' \<and>
   list_all revision_char ''1.01'' \<and>
   listify ''1.01'' = Inr [PyStr [], PyInt 1, PyStr ''.'', PyInt 1] \<and>
   reconstruct [PyStr [], PyInt 1, PyStr ''.'', PyInt 1] = ''1.1'' \<and> ''1.1'' \<noteq> ''1.01''"
  by code_simp

section \<open>Properties of the control message\<close>

lemma message_getitem_key:
  "h \<in> set (message_keys m) \<Longrightarrow> \<exists>v. message_getitem m h = Some v"
proof (induction m)
  case Nil then show ?case by (simp add: message_keys_def)
next
  case (Cons kv m)
  obtain k v where kv: "kv = (k, v)" by (cases kv)
  show ?case
  proof (cases "lower k = lower h")
    case True then show ?thesis by (simp add: kv)
  next
    case False
    then have "h \<noteq> k" by auto
    then have "h \<in> set (message_keys m)" using Cons.prems by (simp add: kv message_keys_def)
    then show ?thesis using Cons.IH False by (simp add: kv)
  qed
qed

lemma replace_header_same:
  "message_getitem m h = Some v \<Longrightarrow> replace_header m h v = Inr m"
  by (induction m) (auto split: if_splits)

text \<open>The coercion loop leaves a message of text strings as it is.\<close>

lemma coerce_headers_identity:
  "set hs \<subseteq> set (message_keys m) \<Longrightarrow> coerce_headers m hs = Inr m"
proof (induction hs)
  case Nil
  show ?case by simp
next
  case (Cons h hs)
  then obtain v where "message_getitem m h = Some v"
    using message_getitem_key [of h m] by auto
  then show ?case using Cons replace_header_same [of m h v]
    by (simp add: force_encoding_def)
qed

text \<open>
  When every debugger session is resumed with \<^verbatim>\<open>continue\<close>, the code raises
  \<open>DpkgMissingRequiredHeaderError\<close> exactly when \<open>ignore_missing\<close> is off and a required
  header is absent, and otherwise returns the message unchanged.
\<close>

lemma check_required_headers_continue:
  "check_required_headers ignore_missing (\<lambda>req. PdbContinue) m reqs =
     (if \<not> ignore_missing \<and> (\<exists>req \<in> set reqs. req \<notin> set (map lower (message_keys m)))
      then Inl DpkgMissingRequiredHeaderError else Inr ())"
proof (induction reqs)
  case Nil show ?case by simp
next
  case (Cons req reqs)
  show ?case
  proof (cases "req \<in> set (map lower (message_keys m))")
    case True
    then show ?thesis using Cons.IH by (simp del: set_map)
  next
    case False
    then show ?thesis using Cons.IH by (cases ignore_missing) (simp_all del: set_map)
  qed
qed

lemma process_control_message_continue:
  "process_control_message ignore_missing (\<lambda>req. PdbContinue) m =
     (if \<not> ignore_missing \<and>
         (\<exists>req \<in> set REQUIRED_HEADERS. req \<notin> set (map lower (message_keys m)))
      then Inl DpkgMissingRequiredHeaderError else Inr m)"
  by (simp add: process_control_message_def check_required_headers_continue
      coerce_headers_identity)

text \<open>
  Claim C2. The claim wants \<^verbatim>\<open>get_header("package")\<close> to be \<^verbatim>\<open>"foo"\<close> for a control file
  with the line \<^verbatim>\<open>Package: foo\<close>. The code returns the empty string: the keys of
  \<^verbatim>\<open>headers\<close> are the names as the control file writes them (\<^verbatim>\<open>Package\<close>), and
  \<^verbatim>\<open>get_header\<close> looks up the lower-cased name (\<^verbatim>\<open>package\<close>), whatever the case of its
  argument.
\<close>

theorem get_header_misses_capitalised:
  "process_control_message False debugger
     [(''Package'', ''foo''), (''Version'', ''1.0-1''), (''Architecture'', ''amd64'')] =
     Inr [(''Package'', ''foo''), (''Version'', ''1.0-1''), (''Architecture'', ''amd64'')] \<and>
   get_header [(''Package'', ''foo''), (''Version'', ''1.0-1''), (''Architecture'', ''amd64'')]
     ''package'' = [] \<and>
   get_header [(''Package'', ''foo''), (''Version'', ''1.0-1''), (''Architecture'', ''amd64'')]
     ''Package'' = [] \<and>
   get_header [(''package'', ''foo'')] ''Package'' = ''foo''"
proof -
  have "lower ''Package'' = ''package''" "lower ''Version'' = ''version''"
    "lower ''Architecture'' = ''architecture''" "lower ''package'' = ''package''"
    by code_simp+
  then show ?thesis
    by (simp add: process_control_message_def REQUIRED_HEADERS_def message_keys_def
        force_encoding_def get_header_def headers_def message_items_def)
qed

text \<open>
  Claim C7. The claim wants a control block without \<^verbatim>\<open>Architecture\<close> to be accepted in
  permissive mode and to raise \<open>DpkgMissingRequiredHeaderError\<close> otherwise. The code
  enters the debugger before it looks at \<open>ignore_missing\<close>; when the session ends with
  \<^verbatim>\<open>quit\<close> or at the end of the input it raises \<open>BdbQuit\<close> in both modes.
\<close>

theorem missing_header_enters_debugger:
  "process_control_message True (\<lambda>req. PdbQuit)
     [(''Package'', ''foo''), (''Version'', ''1.0-1'')] = Inl BdbQuit \<and>
   process_control_message False (\<lambda>req. PdbQuit)
     [(''Package'', ''foo''), (''Version'', ''1.0-1'')] = Inl BdbQuit \<and>
   process_control_message True (\<lambda>req. PdbContinue)
     [(''Package'', ''foo''), (''Version'', ''1.0-1'')] =
     Inr [(''Package'', ''foo''), (''Version'', ''1.0-1'')] \<and>
   process_control_message False (\<lambda>req. PdbContinue)
     [(''Package'', ''foo''), (''Version'', ''1.0-1'')] = Inl DpkgMissingRequiredHeaderError"
  by code_simp

end
